theory Spec2Isabelle
  imports Main "HOL-Library.Word" "HOL-Library.Multiset"
begin

section \<open>JavaScript strings\<close>

text \<open>
  A JavaScript string is a sequence of UTF-16 code units. Literals of the source are
  written \<open>js ''...''\<close>.
\<close>

type_synonym jschar = "16 word"
type_synonym jsstring = "jschar list"

definition js :: "string \<Rightarrow> jsstring" where
  "js s = map (\<lambda>c. of_nat (of_char c)) s"

definition LF :: jschar where "LF = 0x0A"
definition CR :: jschar where "CR = 0x0D"

text \<open>
  The characters removed by \<open>String.prototype.trim\<close> and matched by \<open>\s\<close>: the
  WhiteSpace and LineTerminator code points of ECMAScript.
\<close>

definition is_space :: "jschar \<Rightarrow> bool" where
  "is_space c \<longleftrightarrow>
     c = 0x09 \<or> c = 0x0A \<or> c = 0x0B \<or> c = 0x0C \<or> c = 0x0D \<or> c = 0x20 \<or> c = 0xA0 \<or>
     c = 0x1680 \<or> (0x2000 \<le> c \<and> c \<le> 0x200A) \<or> c = 0x2028 \<or> c = 0x2029 \<or>
     c = 0x202F \<or> c = 0x205F \<or> c = 0x3000 \<or> c = 0xFEFF"

definition trim :: "jsstring \<Rightarrow> jsstring" where
  "trim s = rev (dropWhile is_space (rev (dropWhile is_space s)))"

text \<open>\<open>Number.prototype.toString\<close> on an integer: decimal digits, a minus sign below zero.\<close>

function digits :: "int \<Rightarrow> jsstring" where
  "digits n = (if n < 10 then [word_of_int (48 + n)]
               else digits (n div 10) @ [word_of_int (48 + n mod 10)])"
  by pat_completeness auto
termination
  by (relation "measure nat") auto

declare digits.simps [simp del]

definition toString :: "int \<Rightarrow> jsstring" where
  "toString i = (if i < 0 then js ''-'' @ digits (- i) else digits i)"

section \<open>Data model\<close>

text \<open>
  The object literals of \<open>createNewPlan\<close>, \<open>addBlock\<close> and \<open>parseMarkdownToPlan\<close>.
  The fields \<open>id\<close> are named \<open>block_id\<close> and \<open>plan_id\<close>, the field \<open>done\<close>
  is named \<open>done_flag\<close>; \<open>createdAt\<close> is kept as
  the millisecond timestamp whose ISO rendering the source stores.
\<close>

record block =
  block_id :: jsstring
  content :: jsstring
  done_flag :: bool
  collapsed :: bool

record plan =
  plan_id :: jsstring
  title :: jsstring
  createdAt :: int
  blocks :: "block list"

text \<open>One call of \<open>this.storage.savePlans(this.plans)\<close>: when, and what was transmitted.\<close>

record save_call =
  at :: int
  showStatus :: bool
  collection :: "plan list"

text \<open>
  The fields of \<open>PromptManager\<close> that the block engine reads and writes, together with
  the environment it acts on: the clock read by \<open>Date.now()\<close>, the pending timers
  created by \<open>autoSave\<close> (handle and due time), the calls made to the storage, the
  toasts shown and the number of \<open>render()\<close> calls. \<open>draggedBlock\<close> holds the id of
  the block element being dragged.
\<close>

record prompt_manager =
  plans :: "plan list"
  currentPlanId :: "jsstring option"
  saveTimeout :: "nat option"
  lastEnterPress :: int
  draggedBlock :: "jsstring option"
  blockToDelete :: "jsstring option"
  clock :: int
  timers :: "(nat \<times> int) list"
  timerCount :: nat
  gateway :: "save_call list"
  toasts :: "jsstring list"
  renders :: nat

section \<open>Array helpers\<close>

text \<open>\<open>Array.prototype.findIndex\<close>: the first index that satisfies the test, or -1.\<close>

fun findIndex :: "('a \<Rightarrow> bool) \<Rightarrow> 'a list \<Rightarrow> int" where
  "findIndex P [] = -1"
| "findIndex P (x # xs) =
     (if P x then 0 else (let i = findIndex P xs in if i < 0 then -1 else i + 1))"

text \<open>
  \<open>xs.find(P)\<close> returns a reference to the first element that satisfies \<open>P\<close>; an
  assignment to one of its fields changes that element of the array.
\<close>

fun update_first :: "('a \<Rightarrow> bool) \<Rightarrow> ('a \<Rightarrow> 'a) \<Rightarrow> 'a list \<Rightarrow> 'a list" where
  "update_first P f [] = []"
| "update_first P f (x # xs) = (if P x then f x # xs else x # update_first P f xs)"

definition find_plan :: "jsstring \<Rightarrow> prompt_manager \<Rightarrow> plan option" where
  "find_plan planId s = find (\<lambda>p. plan_id p = planId) (plans s)"

definition find_block :: "jsstring \<Rightarrow> plan \<Rightarrow> block option" where
  "find_block blockId p = find (\<lambda>b. block_id b = blockId) (blocks p)"

definition plan_blocks :: "jsstring \<Rightarrow> prompt_manager \<Rightarrow> block list option" where
  "plan_blocks planId s = map_option blocks (find_plan planId s)"

definition update_plan :: "jsstring \<Rightarrow> (plan \<Rightarrow> plan) \<Rightarrow> prompt_manager \<Rightarrow> prompt_manager" where
  "update_plan planId f s = s\<lparr>plans := update_first (\<lambda>p. plan_id p = planId) f (plans s)\<rparr>"

section \<open>Saving, rendering, notifications\<close>

definition render :: "prompt_manager \<Rightarrow> prompt_manager" where
  "render s = s\<lparr>renders := Suc (renders s)\<rparr>"

definition showToast :: "jsstring \<Rightarrow> prompt_manager \<Rightarrow> prompt_manager" where
  "showToast message s = s\<lparr>toasts := toasts s @ [message]\<rparr>"

text \<open>
  \<open>savePlans(showStatus)\<close> calls the storage with the whole collection before its first
  suspension; what follows the \<open>await\<close> only shows the status.
\<close>

definition savePlans :: "bool \<Rightarrow> prompt_manager \<Rightarrow> prompt_manager" where
  "savePlans status s =
     s\<lparr>gateway := gateway s @ [\<lparr>at = clock s, showStatus = status, collection = plans s\<rparr>]\<rparr>"

section \<open>Deleting a block\<close>

datatype delete_outcome = NoPlan | Blocked | NoBlock | PendingConfirmation | Deleted

definition confirmBlockDelete :: "jsstring \<Rightarrow> jsstring \<Rightarrow> prompt_manager \<Rightarrow> prompt_manager" where
  "confirmBlockDelete planId blockId s =
     (case find_plan planId s of
        None \<Rightarrow> s
      | Some p \<Rightarrow>
          render (savePlans False
            ((update_plan planId
               (\<lambda>p. p\<lparr>blocks := filter (\<lambda>b. block_id b \<noteq> blockId) (blocks p)\<rparr>) s)
             \<lparr>blockToDelete := None\<rparr>)))"

definition initiateBlockDelete ::
  "jsstring \<Rightarrow> jsstring \<Rightarrow> prompt_manager \<Rightarrow> delete_outcome \<times> prompt_manager" where
  "initiateBlockDelete planId blockId s =
     (case find_plan planId s of
        None \<Rightarrow> (NoPlan, s)
      | Some p \<Rightarrow>
          if length (blocks p) \<le> 1
          then (Blocked, showToast (js ''Cannot delete the last block'') s)
          else (case find_block blockId p of
                  None \<Rightarrow> (NoBlock, s)
                | Some b \<Rightarrow>
                    if content b \<noteq> [] \<and> trim (content b) \<noteq> []
                    then (PendingConfirmation, render (s\<lparr>blockToDelete := Some blockId\<rparr>))
                    else (Deleted, confirmBlockDelete planId blockId s)))"

definition cancelBlockDelete :: "prompt_manager \<Rightarrow> prompt_manager" where
  "cancelBlockDelete s = render (s\<lparr>blockToDelete := None\<rparr>)"

section \<open>Timers and the debounced save\<close>

text \<open>
  \<open>setTimeout\<close> hands out a fresh non-zero handle and registers the callback for
  \<open>clock + delay\<close>; \<open>clearTimeout\<close> removes the timer with that handle, if it is
  still pending. Only the timers of \<open>autoSave\<close> are kept: the others of the source
  (toast, focus, status) touch the document alone.
\<close>

definition setTimeout :: "int \<Rightarrow> prompt_manager \<Rightarrow> nat \<times> prompt_manager" where
  "setTimeout delay s =
     (Suc (timerCount s),
      s\<lparr>timers := timers s @ [(Suc (timerCount s), clock s + delay)],
        timerCount := Suc (timerCount s)\<rparr>)"

definition clearTimeout :: "nat \<Rightarrow> prompt_manager \<Rightarrow> prompt_manager" where
  "clearTimeout h s = s\<lparr>timers := filter (\<lambda>t. fst t \<noteq> h) (timers s)\<rparr>"

definition autoSave :: "prompt_manager \<Rightarrow> prompt_manager" where
  "autoSave s =
     (let s1 = (case saveTimeout s of
                  Some h \<Rightarrow> if h \<noteq> 0 then clearTimeout h s else s
                | None \<Rightarrow> s);
          (h, s2) = setTimeout 1000 s1
      in s2\<lparr>saveTimeout := Some h\<rparr>)"

text \<open>The callback of the timer of \<open>autoSave\<close>: \<open>this.savePlans(false)\<close>.\<close>

definition fire :: "prompt_manager \<Rightarrow> prompt_manager" where
  "fire s = savePlans False s"

text \<open>The pending timer that is due first (the older one among equals).\<close>

fun next_due :: "(nat \<times> int) list \<Rightarrow> (nat \<times> int) option" where
  "next_due [] = None"
| "next_due (t # ts) =
     (case next_due ts of
        None \<Rightarrow> Some t
      | Some u \<Rightarrow> if snd u < snd t then Some u else Some t)"

text \<open>
  The event loop between two events: time passes up to \<open>t\<close>, and every timer that
  falls due on the way runs at its due time, the earliest first.
\<close>

function advance_to :: "int \<Rightarrow> prompt_manager \<Rightarrow> prompt_manager" where
  "advance_to t s =
     (case next_due (timers s) of
        None \<Rightarrow> s\<lparr>clock := max (clock s) t\<rparr>
      | Some u \<Rightarrow>
          if snd u \<le> t
          then advance_to t (fire (s\<lparr>clock := max (clock s) (snd u),
                                      timers := remove1 u (timers s)\<rparr>))
          else s\<lparr>clock := max (clock s) t\<rparr>)"
  by pat_completeness auto
termination
proof (relation "measure (\<lambda>(t, s). length (timers s))")
  show "wf (measure (\<lambda>(t, s). length (timers s)))" by simp
next
  fix t :: int and s :: prompt_manager and u :: "nat \<times> int"
  assume u: "next_due (timers s) = Some u"
  have "next_due ts = Some v \<Longrightarrow> v \<in> set ts" for ts v
    by (induction ts arbitrary: v) (auto split: option.splits if_splits)
  then have "u \<in> set (timers s)" using u by blast
  then have "length (remove1 u (timers s)) < length (timers s)"
    by (simp add: length_remove1) (cases "timers s", auto)
  then show "((t, fire (s\<lparr>clock := max (clock s) (snd u), timers := remove1 u (timers s)\<rparr>)), (t, s))
               \<in> measure (\<lambda>(t, s). length (timers s))"
    by (simp add: fire_def savePlans_def)
qed

definition elapse :: "nat \<Rightarrow> prompt_manager \<Rightarrow> prompt_manager" where
  "elapse d s = advance_to (clock s + int d) s"

section \<open>Editing a block\<close>

definition set_content :: "jsstring \<Rightarrow> jsstring \<Rightarrow> plan \<Rightarrow> plan" where
  "set_content blockId c p =
     p\<lparr>blocks := update_first (\<lambda>b. block_id b = blockId) (\<lambda>b. b\<lparr>content := c\<rparr>) (blocks p)\<rparr>"

definition updateBlock :: "jsstring \<Rightarrow> jsstring \<Rightarrow> jsstring \<Rightarrow> prompt_manager \<Rightarrow> prompt_manager" where
  "updateBlock planId blockId c s =
     (case find_plan planId s of
        None \<Rightarrow> s
      | Some p \<Rightarrow>
          (case find_block blockId p of
             None \<Rightarrow> s
           | Some b \<Rightarrow> autoSave (update_plan planId (set_content blockId c) s)))"

text \<open>
  \<open>xs.splice(start, 0, x)\<close>: a negative \<open>start\<close> counts from the end, and the position
  is clamped to the array.
\<close>

definition splice_insert :: "int \<Rightarrow> 'a \<Rightarrow> 'a list \<Rightarrow> 'a list" where
  "splice_insert start x xs =
     (let n = int (length xs);
          k = (if start < 0 then max (n + start) 0 else min start n)
      in take (nat k) xs @ [x] @ drop (nat k) xs)"

section \<open>The keydown handler of a block\<close>

datatype key = Enter | Backspace | OtherKey

text \<open>
  What the handler did: nothing, a split, a merge, or
  \<open>document.execCommand('insertText', false, text)\<close>.
\<close>

datatype keydown_outcome = Ignored | SplitBlock | MergedBlock | InsertText jsstring

text \<open>
  \<open>textContent\<close> is the text of the element that has the focus and \<open>cursorPos\<close> the
  start offset of the selection; \<open>substring\<close> clamps the offset to the text.
\<close>

definition keydown ::
  "jsstring \<Rightarrow> jsstring \<Rightarrow> key \<Rightarrow> jsstring \<Rightarrow> nat \<Rightarrow> prompt_manager
     \<Rightarrow> keydown_outcome \<times> prompt_manager" where
  "keydown planId currentBlockId k textContent cursorPos s =
     (case find_plan planId s of
        None \<Rightarrow> (Ignored, s)
      | Some p \<Rightarrow>
          (let currentBlockIndex = findIndex (\<lambda>b. block_id b = currentBlockId) (blocks p) in
           case k of
             Enter \<Rightarrow>
               (let currentTime = clock s;
                    timeSinceLastEnter = currentTime - lastEnterPress s
                in if timeSinceLastEnter < 500 \<and> timeSinceLastEnter > 0
                   then
                     (let beforeCursor = take cursorPos textContent;
                          afterCursor = drop cursorPos textContent;
                          s1 = updateBlock planId currentBlockId beforeCursor s;
                          newBlock = \<lparr>block_id = toString (clock s), content = afterCursor,
                                      done_flag = False, collapsed = False\<rparr>;
                          s2 = update_plan planId
                                 (\<lambda>p. p\<lparr>blocks := splice_insert (currentBlockIndex + 1) newBlock
                                                      (blocks p)\<rparr>) s1;
                          s3 = render (savePlans True s2)
                      in (SplitBlock, s3\<lparr>lastEnterPress := 0\<rparr>))
                   else (InsertText [LF], s\<lparr>lastEnterPress := currentTime\<rparr>))
           | Backspace \<Rightarrow>
               if trim textContent = [] \<and> currentBlockIndex > 0
               then (MergedBlock,
                     render (savePlans False
                       (update_plan planId
                          (\<lambda>p. p\<lparr>blocks := filter (\<lambda>b. block_id b \<noteq> currentBlockId) (blocks p)\<rparr>)
                          s)))
               else (Ignored, s)
           | OtherKey \<Rightarrow> (Ignored, s)))"

section \<open>Pasting text with separators\<close>

definition startsWith :: "'a list \<Rightarrow> 'a list \<Rightarrow> bool" where
  "startsWith s p = (take (length p) s = p)"

definition endsWith :: "'a list \<Rightarrow> 'a list \<Rightarrow> bool" where
  "endsWith s p = (length p \<le> length s \<and> drop (length s - length p) s = p)"

fun includes_str :: "'a list \<Rightarrow> 'a list \<Rightarrow> bool" where
  "includes_str [] sub = (sub = [])"
| "includes_str (x # xs) sub = (startsWith (x # xs) sub \<or> includes_str xs sub)"

text \<open>
  A match of \<open>/\r?\n---\r?\n/\<close> at the start of the text, as its length. An optional
  \<open>\r\<close> is taken when it is there; leaving it out instead never gives a match, since
  the next character of the pattern is \<open>\n\<close>.
\<close>

definition match_sep :: "jsstring \<Rightarrow> nat option" where
  "match_sep s =
     (let a = (if take 1 s = [CR] then 1 else 0) in
      if take 4 (drop a s) = LF # js ''---''
      then (let b = a + 4;
                c = (if take 1 (drop b s) = [CR] then 1 else 0)
            in if take 1 (drop (b + c) s) = [LF] then Some (b + c + 1) else None)
      else None)"

text \<open>
  \<open>text.split(/\r?\n---\r?\n/)\<close>: the text is scanned from the left; at a match the
  section read so far is closed and the scan goes on after the match.
\<close>

function split_sep :: "jsstring \<Rightarrow> jsstring \<Rightarrow> jsstring list" where
  "split_sep cur [] = [cur]"
| "split_sep cur (c # cs) =
     (case match_sep (c # cs) of
        Some n \<Rightarrow> cur # split_sep [] (drop n (c # cs))
      | None \<Rightarrow> split_sep (cur @ [c]) cs)"
  by pat_completeness auto
termination
  by (relation "measure (\<lambda>(cur, s). length s)")
    (auto simp: match_sep_def Let_def split: if_splits)

datatype paste_outcome = DefaultPaste | PasteIgnored | PasteThrows | PasteSplit

text \<open>
  The paste handler of a block. Without a separator in the pasted text the handler does
  nothing and the browser inserts the text. \<open>sections[0]\<close> of an empty array would
  raise; \<open>split\<close> never returns one.
\<close>

definition paste ::
  "jsstring \<Rightarrow> jsstring \<Rightarrow> jsstring \<Rightarrow> prompt_manager \<Rightarrow> paste_outcome \<times> prompt_manager" where
  "paste planId currentBlockId pastedText s =
     (if includes_str pastedText (LF # js ''---'' @ [LF])
         \<or> includes_str pastedText (CR # LF # js ''---'' @ [CR, LF])
      then
        (case find_plan planId s of
           None \<Rightarrow> (PasteIgnored, s)
         | Some p \<Rightarrow>
             (let currentBlockIndex = findIndex (\<lambda>b. block_id b = currentBlockId) (blocks p) in
              if currentBlockIndex = -1 then (PasteIgnored, s)
              else
                (case split_sep [] pastedText of
                   [] \<Rightarrow> (PasteThrows, s)
                 | first # rest \<Rightarrow>
                     (let sections = first # rest;
                          s1 = update_plan planId
                                 (\<lambda>p. p\<lparr>blocks := (blocks p)
                                    [nat currentBlockIndex :=
                                       (blocks p ! nat currentBlockIndex)\<lparr>content := trim first\<rparr>]\<rparr>) s;
                          s2 = updateBlock planId currentBlockId (trim first) s1;
                          s3 = fold (\<lambda>i. update_plan planId
                                 (\<lambda>p. p\<lparr>blocks := splice_insert (currentBlockIndex + int i)
                                    \<lparr>block_id = toString (clock s) @ toString (int i),
                                     content = trim (sections ! i),
                                     done_flag = False, collapsed = False\<rparr> (blocks p)\<rparr>))
                                 [1..<length sections] s2
                      in (PasteSplit, render (savePlans True s3))))))
      else (DefaultPaste, s))"

text \<open>
  The lines of a text under either line-ending convention, and the number of lines that
  consist solely of \<open>---\<close>: the separator lines in the words of the specification.
\<close>

fun split_on :: "'a \<Rightarrow> 'a list \<Rightarrow> 'a list list" where
  "split_on c [] = [[]]"
| "split_on c (x # xs) =
     (if x = c then [] # split_on c xs
      else (case split_on c xs of [] \<Rightarrow> [[x]] | l # ls \<Rightarrow> (x # l) # ls))"

definition spec_lines :: "jsstring \<Rightarrow> jsstring list" where
  "spec_lines text =
     map (\<lambda>l. if l \<noteq> [] \<and> last l = CR then butlast l else l) (split_on LF text)"

definition spec_separator_lines :: "jsstring \<Rightarrow> nat" where
  "spec_separator_lines text = length (filter (\<lambda>l. l = js ''---'') (spec_lines text))"

section \<open>Reordering by drag and drop\<close>

text \<open>\<open>xs.indexOf(v)\<close>: the first index of \<open>v\<close>, or -1.\<close>

definition indexOf :: "'a list \<Rightarrow> 'a \<Rightarrow> int" where
  "indexOf xs v = findIndex (\<lambda>x. x = v) xs"

text \<open>
  \<open>Array.prototype.sort\<close> with a comparator is a stable sort: an element goes before
  the first element that does not compare below it.
\<close>

fun insert_cmp :: "('a \<Rightarrow> 'a \<Rightarrow> int) \<Rightarrow> 'a \<Rightarrow> 'a list \<Rightarrow> 'a list" where
  "insert_cmp cmp x [] = [x]"
| "insert_cmp cmp x (y # ys) = (if cmp x y \<le> 0 then x # y # ys else y # insert_cmp cmp x ys)"

definition sort_cmp :: "('a \<Rightarrow> 'a \<Rightarrow> int) \<Rightarrow> 'a list \<Rightarrow> 'a list" where
  "sort_cmp cmp xs = foldr (insert_cmp cmp) xs []"

text \<open>
  The drop handler; \<open>newOrder\<close> is the list of the block ids of the rendered block
  elements, in the order of the document.
\<close>

definition drop_handler :: "jsstring list \<Rightarrow> prompt_manager \<Rightarrow> prompt_manager" where
  "drop_handler newOrder s =
     (case draggedBlock s of
        None \<Rightarrow> s
      | Some d \<Rightarrow>
          (case currentPlanId s of
             None \<Rightarrow> s
           | Some planId \<Rightarrow>
               (case find_plan planId s of
                  None \<Rightarrow> s
                | Some p \<Rightarrow>
                    savePlans False
                      (update_plan planId
                         (\<lambda>p. p\<lparr>blocks := sort_cmp
                            (\<lambda>a b. indexOf newOrder (block_id a) - indexOf newOrder (block_id b))
                            (blocks p)\<rparr>) s))))"

section \<open>A burst of content updates\<close>

text \<open>
  Calls of \<open>updateBlock\<close>, each after the given number of milliseconds have passed
  since the previous event.
\<close>

fun burst :: "(nat \<times> jsstring \<times> jsstring \<times> jsstring) list \<Rightarrow> prompt_manager \<Rightarrow> prompt_manager" where
  "burst [] s = s"
| "burst ((d, planId, blockId, c) # cs) s = burst cs (updateBlock planId blockId c (elapse d s))"

text \<open>
  The timers that are pending are those of \<open>autoSave\<close>, and \<open>autoSave\<close> keeps the
  handle of the one it created last in \<open>saveTimeout\<close>: no other timer is pending.
\<close>

definition timers_ok :: "prompt_manager \<Rightarrow> bool" where
  "timers_ok s \<longleftrightarrow> list_all (\<lambda>t. saveTimeout s = Some (fst t) \<and> fst t \<noteq> 0) (timers s)"

text \<open>The plan is found and has a block with this id.\<close>

definition exists_block :: "jsstring \<Rightarrow> jsstring \<Rightarrow> prompt_manager \<Rightarrow> bool" where
  "exists_block planId blockId s =
     (case find_plan planId s of None \<Rightarrow> False | Some p \<Rightarrow> find_block blockId p \<noteq> None)"

text \<open>After a call of \<open>autoSave\<close>: one timer, due in 1000 ms, held in \<open>saveTimeout\<close>.\<close>

definition armed :: "prompt_manager \<Rightarrow> bool" where
  "armed s \<longleftrightarrow> (\<exists>h. h \<noteq> 0 \<and> timers s = [(h, clock s + 1000)] \<and> saveTimeout s = Some h)"

section \<open>Markdown export\<close>

definition block_markdown :: "nat \<Rightarrow> block \<Rightarrow> jsstring" where
  "block_markdown index b =
     js ''## Block '' @ toString (int index + 1) @ js '' ''
       @ (if done_flag b then js ''(Completed)'' else []) @ [LF, LF]
     @ (if done_flag b then js ''~~'' else [])
       @ (if content b \<noteq> [] then content b else js ''*Empty block*'')
       @ (if done_flag b then js ''~~'' else []) @ [LF, LF]
     @ js ''---'' @ [LF, LF]"

fun blocks_markdown :: "nat \<Rightarrow> block list \<Rightarrow> jsstring" where
  "blocks_markdown index [] = []"
| "blocks_markdown index (b # bs) = block_markdown index b @ blocks_markdown (Suc index) bs"

text \<open>
  \<open>localeDate\<close> stands for \<open>new Date(createdAt).toLocaleDateString()\<close>, which depends
  on the locale of the host.
\<close>

definition generateMarkdownForPlan :: "(int \<Rightarrow> jsstring) \<Rightarrow> plan \<Rightarrow> jsstring" where
  "generateMarkdownForPlan localeDate p =
     js ''# '' @ title p @ [LF, LF]
     @ js ''*Created: '' @ localeDate (createdAt p) @ js ''*'' @ [LF, LF]
     @ js ''*Blocks: '' @ toString (int (length (blocks p))) @ js '' (''
       @ toString (int (length (filter (\<lambda>b. \<not> done_flag b) (blocks p)))) @ js '' active)*''
       @ [LF, LF]
     @ js ''---'' @ [LF, LF]
     @ blocks_markdown 0 (blocks p)"

section \<open>Markdown import\<close>

text \<open>\<open>line.replace(/^#\s+/, '')\<close>\<close>

definition strip_heading :: "jsstring \<Rightarrow> jsstring" where
  "strip_heading l =
     (case l of
        [] \<Rightarrow> []
      | c # r \<Rightarrow> if c = 0x23 \<and> r \<noteq> [] \<and> is_space (hd r) then dropWhile is_space r else l)"

text \<open>
  \<open>fileName.replace(/\.(md|txt)$/i, '')\<close>; under the flag \<open>i\<close> a letter of the
  pattern matches itself and its ASCII capital.
\<close>

definition lower :: "jschar \<Rightarrow> jschar" where
  "lower c = (if 0x41 \<le> c \<and> c \<le> 0x5A then c + 0x20 else c)"

definition strip_ext :: "jsstring \<Rightarrow> jsstring" where
  "strip_ext f =
     (if endsWith (map lower f) (js ''.md'') then take (length f - 3) f
      else if endsWith (map lower f) (js ''.txt'') then take (length f - 4) f
      else f)"

text \<open>
  \<open>line.replace(/^~~|~~$/g, '')\<close>: the marker at the start and the marker at the end
  are removed, the latter unless it overlaps the former.
\<close>

definition strip_strike :: "jsstring \<Rightarrow> jsstring" where
  "strip_strike l =
     (let r = (if startsWith l (js ''~~'') then drop 2 l else l)
      in if endsWith r (js ''~~'') then take (length r - 2) r else r)"

text \<open>\<open>if (currentBlock && currentBlock.content.trim()) blocks.push(currentBlock)\<close>\<close>

definition flush :: "block option \<Rightarrow> block list" where
  "flush cur = (case cur of None \<Rightarrow> [] | Some b \<Rightarrow> if trim (content b) \<noteq> [] then [b] else [])"

text \<open>
  The body of the \<open>forEach\<close> over the lines, on the variables \<open>blocks\<close> (here
  \<open>bs\<close>), \<open>currentBlock\<close> and \<open>inBlock\<close>.
\<close>

definition scan_line ::
  "int \<Rightarrow> nat \<Rightarrow> jsstring \<Rightarrow> block list \<times> block option \<times> bool
     \<Rightarrow> block list \<times> block option \<times> bool" where
  "scan_line now index line st =
     (case st of (bs, currentBlock, inBlock) \<Rightarrow>
        if startsWith line (js ''## Block'')
        then (bs @ flush currentBlock,
              Some \<lparr>block_id = toString now @ toString (int index), content = [],
                    done_flag = includes_str line (js ''(Completed)''), collapsed = False\<rparr>,
              True)
        else if line = js ''---'' then (bs, currentBlock, False)
        else if inBlock \<and> currentBlock \<noteq> None \<and> trim line \<noteq> []
        then (let cleanLine = trim (strip_strike line)
              in if cleanLine \<noteq> js ''*Empty block*''
                 then (bs,
                       map_option (\<lambda>b. b\<lparr>content := content b
                          @ (if content b \<noteq> [] then [LF] else []) @ cleanLine\<rparr>) currentBlock,
                       inBlock)
                 else st)
        else st)"

fun scan_lines ::
  "int \<Rightarrow> nat \<Rightarrow> jsstring list \<Rightarrow> block list \<times> block option \<times> bool
     \<Rightarrow> block list \<times> block option \<times> bool" where
  "scan_lines now index [] st = st"
| "scan_lines now index (l # ls) st = scan_lines now (Suc index) ls (scan_line now index l st)"

text \<open>The blocks pushed by the loop and by the flush that follows it; line 0 is skipped.\<close>

definition scanned_blocks :: "int \<Rightarrow> jsstring \<Rightarrow> block list" where
  "scanned_blocks now text =
     (case scan_lines now 1 (tl (split_on LF text)) ([], None, False) of
        (bs, currentBlock, inBlock) \<Rightarrow> bs @ flush currentBlock)"

text \<open>
  \<open>parseMarkdownToPlan(content, fileName)\<close> at the time \<open>now\<close>. The source returns
  null when an exception is caught; with strings for \<open>content\<close> and \<open>fileName\<close> none
  of its operations raises.
\<close>

definition parseMarkdownToPlan :: "jsstring \<Rightarrow> jsstring \<Rightarrow> int \<Rightarrow> plan option" where
  "parseMarkdownToPlan text fileName now =
     (let lines = split_on LF text;
          t = strip_heading (hd lines);
          blocks0 = scanned_blocks now text;
          blocks1 = (if length blocks0 = 0
                     then [\<lparr>block_id = toString now, content = text,
                             done_flag = False, collapsed = False\<rparr>]
                     else blocks0)
      in Some \<lparr>plan_id = toString now,
               title = (if t \<noteq> [] then t else strip_ext fileName),
               createdAt = now, blocks = blocks1\<rparr>)"

section \<open>Plans that survive export and import\<close>

text \<open>
  A title that the import reads back: not empty, on one line, not starting with
  white space.
\<close>

definition round_trip_title :: "jsstring \<Rightarrow> bool" where
  "round_trip_title t \<longleftrightarrow> t \<noteq> [] \<and> LF \<notin> set t \<and> \<not> is_space (hd t)"

text \<open>
  A line of content that the import reads back, trimmed. In the export of a done block
  the strike marker is put in front of the first line of the content and behind its last
  line; \<open>pre\<close> and \<open>suf\<close> say whether that is done to the line. The line is no
  heading of a block and does not start with the strike marker, unless the marker is put
  in front of it; it does not end with the strike marker, unless the marker is put behind
  it; it is not the separator; trimmed, it is not the placeholder of an empty block. A
  blank line is such a line.
\<close>

definition round_trip_line :: "bool \<Rightarrow> bool \<Rightarrow> jsstring \<Rightarrow> bool" where
  "round_trip_line pre suf l \<longleftrightarrow>
     (\<not> pre \<longrightarrow> \<not> startsWith l (js ''## Block'') \<and> \<not> startsWith l (js ''~~''))
     \<and> (\<not> suf \<longrightarrow> \<not> endsWith l (js ''~~''))
     \<and> (\<not> pre \<and> \<not> suf \<longrightarrow> l \<noteq> js ''---'')
     \<and> trim l \<noteq> js ''*Empty block*''"

text \<open>
  The content of a block, done or not, that the import reads back: not empty once
  trimmed, and made of such lines.
\<close>

definition round_trip_content :: "bool \<Rightarrow> jsstring \<Rightarrow> bool" where
  "round_trip_content d c \<longleftrightarrow>
     trim c \<noteq> []
     \<and> (case split_on LF c of
           [] \<Rightarrow> True
         | [l] \<Rightarrow> round_trip_line d d l
         | l # l' # r \<Rightarrow>
             round_trip_line d False l
             \<and> list_all (round_trip_line False False) (butlast (l' # r))
             \<and> round_trip_line False d (last (l' # r)))"

text \<open>The lines of a text, put together again.\<close>

fun join_lines :: "jsstring list \<Rightarrow> jsstring" where
  "join_lines [] = []"
| "join_lines [l] = l"
| "join_lines (l # l' # ls) = l @ LF # join_lines (l' # ls)"

text \<open>
  A content with every line trimmed and the blank lines left out: the content up to
  white space at the ends of its lines and up to blank lines.
\<close>

definition clean_content :: "jsstring \<Rightarrow> jsstring" where
  "clean_content c = join_lines (map trim (filter (\<lambda>l. trim l \<noteq> []) (split_on LF c)))"

text \<open>
  The content that the import gives back: the marked last line of a done block is never
  blank, so that a line break is added for it even when nothing is left of it.
\<close>

definition imported_content :: "bool \<Rightarrow> jsstring \<Rightarrow> jsstring" where
  "imported_content d c =
     clean_content c @ (if d \<and> trim (last (split_on LF c)) = [] then [LF] else [])"

text \<open>No white space next to a line break: before it or after it.\<close>

fun tight_lines :: "jsstring list \<Rightarrow> bool" where
  "tight_lines (l # l' # ls) \<longleftrightarrow>
     l \<noteq> [] \<and> \<not> is_space (last l) \<and> l' \<noteq> [] \<and> \<not> is_space (hd l') \<and> tight_lines (l' # ls)"
| "tight_lines [l] \<longleftrightarrow> True"
| "tight_lines [] \<longleftrightarrow> True"

text \<open>\<open>content += (content ? '\n' : '') + line\<close>, line after line.\<close>

fun append_lines :: "jsstring \<Rightarrow> jsstring list \<Rightarrow> jsstring" where
  "append_lines c [] = c"
| "append_lines c (x # xs) = append_lines (c @ (if c \<noteq> [] then [LF] else []) @ x) xs"

text \<open>Trimming at the left and at the right.\<close>

definition trimL :: "jsstring \<Rightarrow> jsstring" where "trimL s = dropWhile is_space s"

definition trimR :: "jsstring \<Rightarrow> jsstring" where "trimR s = rev (dropWhile is_space (rev s))"

text \<open>
  A line of the document inside a block that the scan takes for content: no heading, not
  the separator, and not the placeholder of an empty block.
\<close>

definition content_line :: "jsstring \<Rightarrow> bool" where
  "content_line e \<longleftrightarrow>
     \<not> startsWith e (js ''## Block'') \<and> e \<noteq> js ''---''
     \<and> trim (strip_strike e) \<noteq> js ''*Empty block*''"

section \<open>Separator lines of a pasted text\<close>

text \<open>
  The pasted text as its lines (the pieces between line feeds). A line read without a
  carriage return at its end; a separator line consists solely of \<open>---\<close> under either
  line-ending convention.
\<close>

definition chomp :: "jsstring \<Rightarrow> jsstring" where
  "chomp l = (if l \<noteq> [] \<and> last l = CR then butlast l else l)"

definition is_sep_line :: "jsstring \<Rightarrow> bool" where
  "is_sep_line l \<longleftrightarrow> chomp l = js ''---''"

text \<open>
  The separator lines of a text are isolated when none of them is the first or the last
  line and no two of them are next to each other.
\<close>

fun seps_isolated :: "jsstring list \<Rightarrow> bool" where
  "seps_isolated [] \<longleftrightarrow> False"
| "seps_isolated [l] \<longleftrightarrow> \<not> is_sep_line l"
| "seps_isolated (l # l' # ls) \<longleftrightarrow>
     \<not> is_sep_line l \<and> (if is_sep_line l' then seps_isolated ls else seps_isolated (l' # ls))"

text \<open>
  The sections of a text in the words of the specification: the lines are cut at every
  separator line, and the lines of each group are put together again.
\<close>

fun line_groups :: "jsstring list \<Rightarrow> jsstring list \<Rightarrow> jsstring list list" where
  "line_groups g [] = [g]"
| "line_groups g (l # ls) =
     (if is_sep_line l then g # line_groups [] ls else line_groups (g @ [l]) ls)"

definition spec_sections :: "jsstring \<Rightarrow> jsstring list" where
  "spec_sections text = map join_lines (line_groups [] (split_on LF text))"

text \<open>
  What the pattern does, line by line: \<open>cur\<close> is the section read so far, up to the end
  of a line, and the list holds the lines that follow. A separator line that has a line
  after it closes the section, whose carriage return before the line break belongs to the
  match; reading goes on with the line after the separator, which is text of the next
  section whatever it is. The first and the last line are never separators.
\<close>

fun line_sections :: "jsstring \<Rightarrow> jsstring list \<Rightarrow> jsstring list" where
  "line_sections cur [] = [cur]"
| "line_sections cur [l] = [cur @ LF # l]"
| "line_sections cur (l # l' # ls) =
     (if is_sep_line l then chomp cur # line_sections l' ls
      else line_sections (cur @ LF # l) (l' # ls))"

section \<open>Example state\<close>

definition mk_block :: "string \<Rightarrow> string \<Rightarrow> block" where
  "mk_block i c = \<lparr>block_id = js i, content = js c, done_flag = False, collapsed = False\<rparr>"

definition mk_plan :: "string \<Rightarrow> string \<Rightarrow> block list \<Rightarrow> plan" where
  "mk_plan i t bs = \<lparr>plan_id = js i, title = js t, createdAt = 0, blocks = bs\<rparr>"

definition mk_state :: "plan list \<Rightarrow> prompt_manager" where
  "mk_state ps = \<lparr>plans = ps, currentPlanId = None, saveTimeout = None, lastEnterPress = 0,
     draggedBlock = None, blockToDelete = None, clock = 1700000000000, timers = [], timerCount = 0,
     gateway = [], toasts = [], renders = 0\<rparr>"

text \<open>A block is being edited, and Enter was pressed 100 ms ago.\<close>

definition split_state :: "string \<Rightarrow> prompt_manager" where
  "split_state c = (mk_state [mk_plan ''p1'' ''X'' [mk_block ''b1'' c, mk_block ''b2'' ''z'']])
     \<lparr>lastEnterPress := 1699999999900\<rparr>"




text \<open>The plan \<open>p1\<close> is open and its block \<open>b1\<close> is being dragged.\<close>

definition drag_state :: prompt_manager where
  "drag_state =
     (mk_state [mk_plan ''p1'' ''X'' [mk_block ''b1'' ''one'', mk_block ''b2'' ''two'',
        mk_block ''b3'' ''three'']])
     \<lparr>currentPlanId := Some (js ''p1''), draggedBlock := Some (js ''b1'')\<rparr>"

section \<open>Lemmas on the helpers\<close>

lemma find_update_first:
  "find P xs = Some x \<Longrightarrow> P (f x) \<Longrightarrow> find P (update_first P f xs) = Some (f x)"
  by (induction xs) (auto split: if_splits)

lemma update_first_None: "find P xs = None \<Longrightarrow> update_first P f xs = xs"
  by (induction xs) (auto split: if_splits)

lemma find_plan_update_plan:
  "find_plan planId s = Some p \<Longrightarrow> plan_id (f p) = planId \<Longrightarrow>
   find_plan planId (update_plan planId f s) = Some (f p)"
  unfolding find_plan_def update_plan_def
  using find_update_first [of "\<lambda>p. plan_id p = planId" "plans s" p f] by simp

lemma find_plan_id: "find_plan planId s = Some p \<Longrightarrow> plan_id p = planId"
  unfolding find_plan_def by (auto simp: find_Some_iff)

lemma find_plan_cong [simp]:
  "find_plan planId (s\<lparr>blockToDelete := x\<rparr>) = find_plan planId s"
  "find_plan planId (render s) = find_plan planId s"
  "find_plan planId (savePlans st s) = find_plan planId s"
  "find_plan planId (showToast m s) = find_plan planId s"
  by (simp_all add: find_plan_def render_def savePlans_def showToast_def)

subsection \<open>Lines\<close>

lemma split_on_nonempty: "split_on c s \<noteq> []"
  by (induction s) (auto split: list.splits)

lemma split_on_append: "split_on c (a @ c # r) = split_on c a @ split_on c r"
proof (induction a)
  case Nil
  then show ?case by simp
next
  case (Cons x a)
  obtain l ls where s: "split_on c a = l # ls"
    using split_on_nonempty [of c a] by (cases "split_on c a") auto
  show ?case using Cons s by simp
qed

lemma split_on_none: "c \<notin> set a \<Longrightarrow> split_on c a = [a]"
  by (induction a) auto

lemma split_on_line: "c \<notin> set a \<Longrightarrow> split_on c (a @ c # r) = a # split_on c r"
  by (simp add: split_on_append split_on_none)

lemma split_on_prefix:
  "c \<notin> set p \<Longrightarrow> split_on c (p @ s) = (p @ hd (split_on c s)) # tl (split_on c s)"
proof (induction p)
  case Nil
  then show ?case using split_on_nonempty [of c s] by simp
next
  case (Cons x p)
  then have "x \<noteq> c" by auto
  then show ?case using Cons by simp
qed

lemma split_on_suffix:
  "c \<notin> set q \<Longrightarrow> split_on c (s @ q) = butlast (split_on c s) @ [last (split_on c s) @ q]"
proof (induction s)
  case Nil
  then show ?case by (simp add: split_on_none)
next
  case (Cons x s)
  obtain l ls where s: "split_on c s = l # ls"
    using split_on_nonempty [of c s] by (cases "split_on c s") auto
  show ?case
  proof (cases "x = c")
    case True
    then show ?thesis using Cons s by simp
  next
    case False
    then show ?thesis using Cons s by (cases ls) auto
  qed
qed

subsection \<open>Prefixes and substrings\<close>

lemma startsWith_append [simp]: "startsWith (p @ s) p"
  by (simp add: startsWith_def)

lemma startsWith_Cons_neq: "x \<noteq> y \<Longrightarrow> \<not> startsWith (x # s) (y # p)"
  by (simp add: startsWith_def)

lemma startsWith_Nil: "p \<noteq> [] \<Longrightarrow> \<not> startsWith [] p"
  by (auto simp: startsWith_def)

lemma endsWith_append [simp]: "endsWith (s @ q) q"
  by (simp add: endsWith_def)

lemma includes_str_set: "includes_str s sub \<Longrightarrow> set sub \<subseteq> set s"
proof (induction s)
  case Nil
  then show ?case by simp
next
  case (Cons x s)
  show ?case
  proof (cases "startsWith (x # s) sub")
    case True
    then have "sub = take (length sub) (x # s)" by (simp add: startsWith_def)
    then have "set sub \<subseteq> set (x # s)" by (metis set_take_subset)
    then show ?thesis .
  next
    case False
    then have "set sub \<subseteq> set s" using Cons by simp
    then show ?thesis by auto
  qed
qed

lemma includes_str_append: "includes_str (a @ sub) sub"
  by (induction a) (auto simp: startsWith_def, cases sub, auto simp: startsWith_def)

lemma js_append: "js (a @ b) = js a @ js b"
  by (simp add: js_def)

subsection \<open>Trimming\<close>

lemma trim_LR: "trim s = trimR (trimL s)"
  by (simp add: trim_def trimL_def trimR_def)

lemma trimL_nonblank: "\<exists>x\<in>set a. \<not> is_space x \<Longrightarrow> trimL (a @ b) = trimL a @ b"
  unfolding trimL_def by (metis dropWhile_append1)

lemma trimR_nonblank: "\<exists>x\<in>set b. \<not> is_space x \<Longrightarrow> trimR (a @ b) = a @ trimR b"
proof -
  assume "\<exists>x\<in>set b. \<not> is_space x"
  then obtain x where "x \<in> set (rev b)" "\<not> is_space x" by auto
  then have "dropWhile is_space (rev b @ rev a) = dropWhile is_space (rev b) @ rev a"
    by (rule dropWhile_append1)
  then show ?thesis by (simp add: trimR_def)
qed

lemma trimL_id: "s = [] \<or> \<not> is_space (hd s) \<Longrightarrow> trimL s = s"
  unfolding trimL_def by (cases s) auto

lemma trimR_id: "s = [] \<or> \<not> is_space (last s) \<Longrightarrow> trimR s = s"
proof -
  assume a: "s = [] \<or> \<not> is_space (last s)"
  have "rev s = [] \<or> \<not> is_space (hd (rev s))"
    using a by (auto simp: hd_rev)
  then have "dropWhile is_space (rev s) = rev s"
    by (cases "rev s") auto
  then show ?thesis by (simp add: trimR_def)
qed

lemma set_trimL: "(\<exists>x\<in>set (trimL s). \<not> is_space x) = (\<exists>x\<in>set s. \<not> is_space x)"
  unfolding trimL_def by (induction s) auto

lemma trimL_nonempty: "(trimL s \<noteq> []) = (\<exists>x\<in>set s. \<not> is_space x)"
  unfolding trimL_def by simp

lemma trimR_nonempty: "(trimR s \<noteq> []) = (\<exists>x\<in>set s. \<not> is_space x)"
  unfolding trimR_def by simp

lemma trim_nonempty: "(trim s \<noteq> []) = (\<exists>x\<in>set s. \<not> is_space x)"
  by (simp add: trim_LR trimR_nonempty set_trimL)

lemma last_trimL: "\<exists>x\<in>set s. \<not> is_space x \<Longrightarrow> last (trimL s) = last s"
  unfolding trimL_def by (induction s) auto

lemma trim_first_line:
  assumes "\<exists>x\<in>set s. \<not> is_space x" and "\<not> is_space (last s)"
  shows "trim s = trimL s"
proof -
  have "\<not> is_space (last (trimL s))" using assms by (simp add: last_trimL)
  then show ?thesis by (simp add: trim_LR trimR_id)
qed

lemma trim_last_line: "s = [] \<or> \<not> is_space (hd s) \<Longrightarrow> trim s = trimR s"
  by (simp add: trim_LR trimL_id)

lemma trim_mid_line:
  "s = [] \<or> \<not> is_space (hd s) \<Longrightarrow> s = [] \<or> \<not> is_space (last s) \<Longrightarrow> trim s = s"
  by (simp add: trim_LR trimL_id trimR_id)

lemma join_split_on: "join_lines (split_on LF s) = s"
proof (induction s)
  case Nil
  then show ?case by simp
next
  case (Cons x s)
  obtain l ls where s: "split_on LF s = l # ls"
    using split_on_nonempty [of LF s] by (cases "split_on LF s") auto
  show ?case using Cons s by (cases ls) auto
qed

lemma join_lines_Cons: "ls \<noteq> [] \<Longrightarrow> join_lines (l # ls) = l @ LF # join_lines ls"
  by (cases ls) auto

lemma join_nonblank:
  "ls \<noteq> [] \<Longrightarrow> \<forall>l\<in>set ls. \<exists>x\<in>set l. \<not> is_space x \<Longrightarrow> \<exists>x\<in>set (join_lines ls). \<not> is_space x"
  by (cases ls rule: join_lines.cases) auto

text \<open>Trimming a text whose line breaks have no white space next to them.\<close>

lemma trimR_join:
  assumes "ls \<noteq> []" and "\<forall>l\<in>set ls. \<exists>x\<in>set l. \<not> is_space x" and "tight_lines ls"
  shows "trimR (join_lines ls) = join_lines (butlast ls @ [trimR (last ls)])"
  using assms
proof (induction ls rule: join_lines.induct)
  case 1
  then show ?case by simp
next
  case (2 l)
  then show ?case by simp
next
  case (3 l l' ls)
  have nb: "\<exists>x\<in>set (join_lines (l' # ls)). \<not> is_space x"
    using "3.prems"(2) by (intro join_nonblank) auto
  have "trimR (join_lines (l # l' # ls)) = (l @ [LF]) @ trimR (join_lines (l' # ls))"
    using trimR_nonblank [OF nb, of "l @ [LF]"] by simp
  also have "\<dots> = (l @ [LF]) @ join_lines (butlast (l' # ls) @ [trimR (last (l' # ls))])"
    using "3.IH" "3.prems" by simp
  also have "\<dots> = join_lines (l # (butlast (l' # ls) @ [trimR (last (l' # ls))]))"
    by (simp add: join_lines_Cons)
  finally show ?case by simp
qed

lemma map_trim_tail:
  "tight_lines ls \<Longrightarrow> ls \<noteq> [] \<Longrightarrow> hd ls = [] \<or> \<not> is_space (hd (hd ls)) \<Longrightarrow>
   map trim ls = butlast ls @ [trimR (last ls)]"
proof (induction ls rule: tight_lines.induct)
  case (1 l l' ls)
  have "trim l = l" using "1.prems" by (intro trim_mid_line) auto
  moreover have "map trim (l' # ls) = butlast (l' # ls) @ [trimR (last (l' # ls))]"
    using "1.prems" by (intro "1.IH") auto
  ultimately show ?case by simp
next
  case (2 l)
  then show ?case by (simp add: trim_last_line)
next
  case 3
  then show ?case by simp
qed

lemma trim_join:
  assumes "ls \<noteq> []" and nb: "\<forall>l\<in>set ls. \<exists>x\<in>set l. \<not> is_space x" and t: "tight_lines ls"
  shows "trim (join_lines ls) = join_lines (map trim ls)"
proof (cases ls rule: join_lines.cases)
  case 1
  then show ?thesis using assms by simp
next
  case (2 l)
  then show ?thesis by simp
next
  case (3 l l' rest)
  let ?r = "l' # rest"
  have nbl: "\<exists>x\<in>set l. \<not> is_space x" and nbr: "\<forall>l\<in>set ?r. \<exists>x\<in>set l. \<not> is_space x"
    using nb 3 by auto
  have tr: "tight_lines ?r" and ll: "\<not> is_space (last l)" and hl: "\<not> is_space (hd l')" "l' \<noteq> []"
    using t 3 by auto
  have nbj: "\<exists>x\<in>set (join_lines ?r). \<not> is_space x"
    using nbr by (intro join_nonblank) auto
  have "trim (join_lines ls) = trimR (trimL (l @ LF # join_lines ?r))"
    using 3 by (simp add: trim_LR)
  also have "\<dots> = trimR ((trimL l @ [LF]) @ join_lines ?r)"
    using trimL_nonblank [OF nbl] by simp
  also have "\<dots> = (trimL l @ [LF]) @ trimR (join_lines ?r)"
    using nbj by (rule trimR_nonblank)
  also have "trimR (join_lines ?r) = join_lines (butlast ?r @ [trimR (last ?r)])"
    using nbr tr by (intro trimR_join) auto
  also have "butlast ?r @ [trimR (last ?r)] = map trim ?r"
    using tr hl by (intro map_trim_tail [symmetric]) auto
  also have "trimL l = trim l"
    using nbl ll by (rule trim_first_line [symmetric])
  finally show ?thesis using 3 by simp
qed

lemma LF_space [simp]: "is_space LF"
  by (simp add: is_space_def LF_def)

lemma trim_Nil [simp]: "trim [] = []"
  by (simp add: trim_def)

lemma trim_Cons_space: "is_space x \<Longrightarrow> trim (x # y) = trim y"
  by (simp add: trim_def)

lemma trim_snoc_space: "is_space x \<Longrightarrow> trim (y @ [x]) = trim y"
proof (cases "\<exists>a\<in>set y. \<not> is_space a")
  case True
  assume "is_space x"
  moreover have "trimL (y @ [x]) = trimL y @ [x]" using True by (rule trimL_nonblank)
  ultimately show ?thesis by (simp add: trim_LR trimR_def)
next
  case False
  assume "is_space x"
  then have "trim y = []" "trim (y @ [x]) = []"
    using False trim_nonempty [of y] trim_nonempty [of "y @ [x]"] by auto
  then show ?thesis by simp
qed

lemma join_lines_snoc: "g \<noteq> [] \<Longrightarrow> join_lines (g @ [l]) = join_lines g @ LF # l"
  by (induction g rule: join_lines.induct) auto

lemma set_join_lines: "x \<in> set (join_lines ls) \<Longrightarrow> x = LF \<or> (\<exists>l\<in>set ls. x \<in> set l)"
  by (induction ls rule: join_lines.induct) auto

lemma in_join_lines: "l \<in> set ls \<Longrightarrow> x \<in> set l \<Longrightarrow> x \<in> set (join_lines ls)"
  by (induction ls rule: join_lines.induct) auto

lemma join_lines_nonempty: "ls \<noteq> [] \<Longrightarrow> hd ls \<noteq> [] \<Longrightarrow> join_lines ls \<noteq> []"
  by (cases ls rule: join_lines.cases) auto

lemma hd_join_lines: "ls \<noteq> [] \<Longrightarrow> hd ls \<noteq> [] \<Longrightarrow> hd (join_lines ls) = hd (hd ls)"
  by (cases ls rule: join_lines.cases) auto

lemma last_join_lines: "ls \<noteq> [] \<Longrightarrow> last ls \<noteq> [] \<Longrightarrow> last (join_lines ls) = last (last ls)"
proof (induction ls rule: join_lines.induct)
  case 1
  then show ?case by simp
next
  case (2 l)
  then show ?case by simp
next
  case (3 l l' ls)
  have "last (l' # ls) \<noteq> []" using "3.prems" by simp
  then obtain x where "x \<in> set (last (l' # ls))" by (cases "last (l' # ls)") auto
  moreover have "last (l' # ls) \<in> set (l' # ls)" by (rule last_in_set) simp
  ultimately have "x \<in> set (join_lines (l' # ls))" by (intro in_join_lines)
  then have "join_lines (l' # ls) \<noteq> []" by auto
  then show ?case using 3 by simp
qed

section \<open>The last block of a plan\<close>

text \<open>
  C1. When the plan has exactly one block, \<open>initiateBlockDelete\<close> takes the branch that
  shows the toast "Cannot delete the last block" and returns: whatever the block id and
  the block's content, the plans (hence the block sequence and every field of the
  block) and the pending-delete reference are unchanged; the toast is the only effect.
\<close>

theorem initiateBlockDelete_last_block:
  assumes "find_plan planId s = Some p" and "length (blocks p) = 1"
  shows "fst (initiateBlockDelete planId blockId s) = Blocked
       \<and> plans (snd (initiateBlockDelete planId blockId s)) = plans s
       \<and> find_plan planId (snd (initiateBlockDelete planId blockId s)) = Some p
       \<and> blockToDelete (snd (initiateBlockDelete planId blockId s)) = blockToDelete s
       \<and> snd (initiateBlockDelete planId blockId s)
           = s\<lparr>toasts := toasts s @ [js ''Cannot delete the last block'']\<rparr>"
  using assms by (simp add: initiateBlockDelete_def showToast_def find_plan_def)

theorem initiateBlockDelete_last_block_witness:
  "fst (initiateBlockDelete (js ''p1'') (js ''b1'')
          (mk_state [mk_plan ''p1'' ''X'' [mk_block ''b1'' ''keep me'']])) = Blocked
   \<and> plans (snd (initiateBlockDelete (js ''p1'') (js ''b1'')
          (mk_state [mk_plan ''p1'' ''X'' [mk_block ''b1'' ''keep me'']])))
       = [mk_plan ''p1'' ''X'' [mk_block ''b1'' ''keep me'']]"
proof -
  let ?s = "mk_state [mk_plan ''p1'' ''X'' [mk_block ''b1'' ''keep me'']]"
  have f: "find_plan (js ''p1'') ?s = Some (mk_plan ''p1'' ''X'' [mk_block ''b1'' ''keep me''])"
    by (simp add: find_plan_def mk_state_def mk_plan_def)
  have l: "length (blocks (mk_plan ''p1'' ''X'' [mk_block ''b1'' ''keep me''])) = 1"
    by (simp add: mk_plan_def)
  have p: "plans ?s = [mk_plan ''p1'' ''X'' [mk_block ''b1'' ''keep me'']]"
    by (simp add: mk_state_def)
  show ?thesis
    using initiateBlockDelete_last_block [OF f l, of "js ''b1''"] p by simp
qed

section \<open>Confirming a deletion\<close>

lemma plans_confirmBlockDelete:
  "find_plan planId s = Some p \<Longrightarrow>
   plans (confirmBlockDelete planId blockId s)
     = update_first (\<lambda>p. plan_id p = planId)
         (\<lambda>p. p\<lparr>blocks := filter (\<lambda>b. block_id b \<noteq> blockId) (blocks p)\<rparr>) (plans s)"
  by (simp add: confirmBlockDelete_def update_plan_def render_def savePlans_def)

lemma find_plan_confirmBlockDelete:
  assumes "find_plan planId s = Some p"
  shows "find_plan planId (confirmBlockDelete planId blockId s)
           = Some (p\<lparr>blocks := filter (\<lambda>b. block_id b \<noteq> blockId) (blocks p)\<rparr>)"
proof -
  have "plan_id p = planId" using assms by (rule find_plan_id)
  then have "find_plan planId
      (update_plan planId (\<lambda>p. p\<lparr>blocks := filter (\<lambda>b. block_id b \<noteq> blockId) (blocks p)\<rparr>) s)
    = Some (p\<lparr>blocks := filter (\<lambda>b. block_id b \<noteq> blockId) (blocks p)\<rparr>)"
    using assms by (intro find_plan_update_plan) simp_all
  then show ?thesis using assms by (simp add: confirmBlockDelete_def)
qed

lemma blockToDelete_confirmBlockDelete:
  "find_plan planId s = Some p \<Longrightarrow> blockToDelete (confirmBlockDelete planId blockId s) = None"
  by (simp add: confirmBlockDelete_def update_plan_def render_def savePlans_def)

lemma filter_neq_remove1:
  "distinct (map f xs) \<Longrightarrow> find (\<lambda>x. f x = k) xs = Some b \<Longrightarrow>
   filter (\<lambda>x. f x \<noteq> k) xs = remove1 b xs"
proof (induction xs)
  case Nil
  then show ?case by simp
next
  case (Cons x xs)
  show ?case
  proof (cases "f x = k")
    case True
    then have "b = x" using Cons.prems(2) by simp
    moreover have "f x \<notin> f ` set xs" using Cons.prems(1) by simp
    then have "\<forall>y\<in>set xs. f y \<noteq> k" using True by (metis imageI)
    then have "filter (\<lambda>x. f x \<noteq> k) xs = xs" by (simp add: filter_id_conv)
    ultimately show ?thesis using True by simp
  next
    case False
    then have "b \<noteq> x" using Cons.prems(2) by (auto simp: find_Some_iff)
    then show ?thesis using False Cons by simp
  qed
qed

text \<open>
  C10. Whenever the plan exists, \<open>confirmBlockDelete\<close> keeps exactly the blocks whose id
  differs from the one given and sets \<open>blockToDelete\<close> to null; the other plans are not
  touched. It reads neither \<open>blockToDelete\<close> (the resulting plans are the same whatever
  that field held) nor the number of blocks: called with the id of the only block of a
  plan, it leaves the plan with no block.
\<close>

theorem confirmBlockDelete_unconditional:
  assumes "find_plan planId s = Some p"
  shows "find_plan planId (confirmBlockDelete planId blockId s)
           = Some (p\<lparr>blocks := filter (\<lambda>b. block_id b \<noteq> blockId) (blocks p)\<rparr>)
       \<and> plans (confirmBlockDelete planId blockId s)
           = update_first (\<lambda>p. plan_id p = planId)
               (\<lambda>p. p\<lparr>blocks := filter (\<lambda>b. block_id b \<noteq> blockId) (blocks p)\<rparr>) (plans s)
       \<and> blockToDelete (confirmBlockDelete planId blockId s) = None
       \<and> plans (confirmBlockDelete planId blockId (s\<lparr>blockToDelete := pending\<rparr>))
           = plans (confirmBlockDelete planId blockId s)
       \<and> (\<forall>b. blocks p = [b] \<and> block_id b = blockId \<longrightarrow>
            map_option blocks (find_plan planId (confirmBlockDelete planId blockId s)) = Some [])"
proof -
  have "find_plan planId (s\<lparr>blockToDelete := pending\<rparr>) = Some p"
    using assms by simp
  then have "plans (confirmBlockDelete planId blockId (s\<lparr>blockToDelete := pending\<rparr>))
      = plans (confirmBlockDelete planId blockId s)"
    using assms by (simp add: plans_confirmBlockDelete)
  moreover have "\<forall>b. blocks p = [b] \<and> block_id b = blockId \<longrightarrow>
      map_option blocks (find_plan planId (confirmBlockDelete planId blockId s)) = Some []"
    using assms by (auto simp: find_plan_confirmBlockDelete)
  ultimately show ?thesis
    using assms
    by (simp add: find_plan_confirmBlockDelete plans_confirmBlockDelete
        blockToDelete_confirmBlockDelete)
qed

theorem confirmBlockDelete_unconditional_witness:
  "find_plan (js ''p1'') (mk_state [mk_plan ''p1'' ''X'' [mk_block ''b1'' ''only'']])
     = Some (mk_plan ''p1'' ''X'' [mk_block ''b1'' ''only''])
   \<and> blockToDelete (mk_state [mk_plan ''p1'' ''X'' [mk_block ''b1'' ''only'']]) = None
   \<and> map_option blocks (find_plan (js ''p1'')
        (confirmBlockDelete (js ''p1'') (js ''b1'')
           (mk_state [mk_plan ''p1'' ''X'' [mk_block ''b1'' ''only'']]))) = Some []"
proof -
  let ?p = "mk_plan ''p1'' ''X'' [mk_block ''b1'' ''only'']"
  have f: "find_plan (js ''p1'') (mk_state [?p]) = Some ?p"
    by (simp add: find_plan_def mk_state_def mk_plan_def)
  have b: "blocks ?p = [mk_block ''b1'' ''only''] \<and> block_id (mk_block ''b1'' ''only'') = js ''b1''"
    by (simp add: mk_plan_def mk_block_def)
  have n: "blockToDelete (mk_state [?p]) = None"
    by (simp add: mk_state_def)
  show ?thesis
    using confirmBlockDelete_unconditional [OF f, of "js ''b1''" None] b f n by blast
qed

section \<open>Pending deletion\<close>

text \<open>
  C2, as stated, fails: after \<open>initiateBlockDelete\<close> has set \<open>blockToDelete\<close> to block
  \<open>b1\<close>, confirming with the id \<open>b2\<close> of the other block removes \<open>b2\<close>.
\<close>

theorem confirmBlockDelete_other_id_counterexample:
  "fst (initiateBlockDelete (js ''p1'') (js ''b1'')
          (mk_state [mk_plan ''p1'' ''X'' [mk_block ''b1'' ''x'', mk_block ''b2'' ''y'']]))
     = PendingConfirmation
   \<and> blockToDelete (snd (initiateBlockDelete (js ''p1'') (js ''b1'')
          (mk_state [mk_plan ''p1'' ''X'' [mk_block ''b1'' ''x'', mk_block ''b2'' ''y'']])))
     = Some (js ''b1'')
   \<and> js ''b2'' \<noteq> js ''b1''
   \<and> map_option blocks (find_plan (js ''p1'')
        (confirmBlockDelete (js ''p1'') (js ''b2'')
           (snd (initiateBlockDelete (js ''p1'') (js ''b1'')
              (mk_state [mk_plan ''p1'' ''X'' [mk_block ''b1'' ''x'', mk_block ''b2'' ''y'']])))))
     = Some [mk_block ''b1'' ''x'']
   \<and> [mk_block ''b1'' ''x''] \<noteq> [mk_block ''b1'' ''x'', mk_block ''b2'' ''y'']"
  by (simp add: initiateBlockDelete_def confirmBlockDelete_def find_plan_def find_block_def
      update_plan_def render_def savePlans_def mk_state_def mk_plan_def mk_block_def
      trim_def is_space_def js_def)

text \<open>
  C2, amended. After \<open>initiateBlockDelete\<close> has answered \<open>PendingConfirmation\<close> for
  block \<open>B\<close>, the pending reference is \<open>B\<close> and the plans are as before. A following
  \<open>confirmBlockDelete\<close> on the same plan with any id \<open>C\<close> removes the blocks whose id
  is \<open>C\<close> and clears the pending reference; it leaves the blocks as they are exactly
  when no block of the plan has the id \<open>C\<close>. With the id \<open>B\<close> itself, and block ids
  unique within the plan, exactly the block \<open>B\<close> is removed.
\<close>

theorem confirmBlockDelete_after_pending:
  assumes "find_plan planId s = Some p"
    and "initiateBlockDelete planId B s = (PendingConfirmation, s1)"
  shows "blockToDelete s1 = Some B \<and> plans s1 = plans s
       \<and> (\<forall>C. map_option blocks (find_plan planId (confirmBlockDelete planId C s1))
                 = Some (filter (\<lambda>b. block_id b \<noteq> C) (blocks p))
              \<and> blockToDelete (confirmBlockDelete planId C s1) = None
              \<and> (filter (\<lambda>b. block_id b \<noteq> C) (blocks p) = blocks p
                   \<longleftrightarrow> C \<notin> block_id ` set (blocks p)))
       \<and> (distinct (map block_id (blocks p)) \<longrightarrow>
            (\<exists>b. find_block B p = Some b \<and> b \<in> set (blocks p) \<and> block_id b = B
                \<and> map_option blocks (find_plan planId (confirmBlockDelete planId B s1))
                     = Some (remove1 b (blocks p))))"
proof -
  from assms obtain b where b: "find_block B p = Some b"
    and s1: "s1 = render (s\<lparr>blockToDelete := Some B\<rparr>)"
    by (auto simp: initiateBlockDelete_def split: if_splits option.splits)
  have f1: "find_plan planId s1 = Some p" using assms(1) s1 by simp
  have conf: "map_option blocks (find_plan planId (confirmBlockDelete planId C s1))
                 = Some (filter (\<lambda>b. block_id b \<noteq> C) (blocks p))" for C
    using f1 by (simp add: find_plan_confirmBlockDelete)
  have noop: "filter (\<lambda>b. block_id b \<noteq> C) (blocks p) = blocks p
                \<longleftrightarrow> C \<notin> block_id ` set (blocks p)" for C
    by (auto simp: filter_id_conv)
  have bmem: "b \<in> set (blocks p) \<and> block_id b = B"
    using b by (auto simp: find_block_def find_Some_iff)
  have rem: "distinct (map block_id (blocks p)) \<Longrightarrow>
      filter (\<lambda>b. block_id b \<noteq> B) (blocks p) = remove1 b (blocks p)"
    using b filter_neq_remove1 [of block_id "blocks p" B b] by (simp add: find_block_def)
  have p1: "blockToDelete s1 = Some B \<and> plans s1 = plans s"
    using s1 by (simp add: render_def)
  have p2: "blockToDelete (confirmBlockDelete planId C s1) = None" for C
    using f1 by (rule blockToDelete_confirmBlockDelete)
  have p3: "distinct (map block_id (blocks p)) \<longrightarrow>
            (\<exists>b. find_block B p = Some b \<and> b \<in> set (blocks p) \<and> block_id b = B
                \<and> map_option blocks (find_plan planId (confirmBlockDelete planId B s1))
                     = Some (remove1 b (blocks p)))"
    using b bmem rem conf [of B] by auto
  show ?thesis
    using p1 p2 p3 conf noop by blast
qed

theorem confirmBlockDelete_after_pending_witness:
  "map_option blocks (find_plan (js ''p1'')
     (confirmBlockDelete (js ''p1'') (js ''b1'')
        (snd (initiateBlockDelete (js ''p1'') (js ''b1'')
           (mk_state [mk_plan ''p1'' ''X'' [mk_block ''b1'' ''x'', mk_block ''b2'' ''y'']])))))
   = Some [mk_block ''b2'' ''y'']"
proof -
  let ?p = "mk_plan ''p1'' ''X'' [mk_block ''b1'' ''x'', mk_block ''b2'' ''y'']"
  let ?s = "mk_state [?p]"
  have f: "find_plan (js ''p1'') ?s = Some ?p"
    by (simp add: find_plan_def mk_state_def mk_plan_def)
  have i: "initiateBlockDelete (js ''p1'') (js ''b1'') ?s
             = (PendingConfirmation, snd (initiateBlockDelete (js ''p1'') (js ''b1'') ?s))"
    by (simp add: initiateBlockDelete_def find_plan_def find_block_def
        mk_state_def mk_plan_def mk_block_def trim_def is_space_def js_def)
  have d: "distinct (map block_id (blocks ?p))"
    by (simp add: mk_plan_def mk_block_def js_def)
  have fb: "find_block (js ''b1'') ?p = Some (mk_block ''b1'' ''x'')"
    by (simp add: find_block_def mk_plan_def mk_block_def)
  have r: "remove1 (mk_block ''b1'' ''x'') (blocks ?p) = [mk_block ''b2'' ''y'']"
    by (simp add: mk_plan_def)
  show ?thesis
    using confirmBlockDelete_after_pending [OF f i] d fb r by auto
qed

section \<open>Enter: newline or split\<close>

lemma find_split:
  "find P xs = Some b \<Longrightarrow> \<exists>ys zs. xs = ys @ b # zs \<and> (\<forall>y\<in>set ys. \<not> P y) \<and> P b"
proof (induction xs)
  case Nil
  then show ?case by simp
next
  case (Cons x xs)
  show ?case
  proof (cases "P x")
    case True
    then have "x # xs = [] @ b # xs \<and> (\<forall>y\<in>set []. \<not> P y) \<and> P b"
      using Cons.prems by simp
    then show ?thesis by blast
  next
    case False
    then obtain ys zs where "xs = ys @ b # zs" "\<forall>y\<in>set ys. \<not> P y" "P b"
      using Cons by auto
    then have "x # xs = (x # ys) @ b # zs \<and> (\<forall>y\<in>set (x # ys). \<not> P y) \<and> P b"
      using False by simp
    then show ?thesis by blast
  qed
qed

lemma findIndex_nonneg_or: "findIndex P xs = -1 \<or> 0 \<le> findIndex P xs"
  by (induction xs) (auto simp: Let_def)

lemma findIndex_append:
  "\<forall>y\<in>set ys. \<not> P y \<Longrightarrow> P b \<Longrightarrow> findIndex P (ys @ b # zs) = int (length ys)"
  by (induction ys) (auto simp: Let_def)

lemma findIndex_none: "\<forall>y\<in>set ys. \<not> P y \<Longrightarrow> findIndex P ys = -1"
  by (induction ys) (auto simp: Let_def)

lemma update_first_append:
  "\<forall>y\<in>set ys. \<not> P y \<Longrightarrow> P b \<Longrightarrow> update_first P f (ys @ b # zs) = ys @ f b # zs"
  by (induction ys) auto

lemma splice_insert_after:
  "splice_insert (int (length ys) + 1) x (ys @ b # zs) = ys @ b # x # zs"
  by (simp add: splice_insert_def Let_def nat_add_distrib)

lemma plans_autoSave [simp]: "plans (autoSave s) = plans s"
  by (simp add: autoSave_def setTimeout_def clearTimeout_def Let_def split: option.splits)

lemma find_plan_autoSave [simp]: "find_plan planId (autoSave s) = find_plan planId s"
  by (simp add: find_plan_def)

lemma find_plan_lastEnterPress [simp]:
  "find_plan planId (s\<lparr>lastEnterPress := x\<rparr>) = find_plan planId s"
  by (simp add: find_plan_def)

lemma find_plan_updateBlock:
  assumes "find_plan planId s = Some p" and "find_block blockId p = Some b"
  shows "find_plan planId (updateBlock planId blockId c s) = Some (set_content blockId c p)"
proof -
  have "plan_id (set_content blockId c p) = planId"
    using assms(1) by (simp add: set_content_def find_plan_id)
  then show ?thesis
    using assms by (simp add: updateBlock_def find_plan_update_plan)
qed


lemma keydown_Enter_split:
  assumes fp: "find_plan planId s = Some p"
    and fb: "find_block blockId p = Some b"
    and t: "0 < clock s - lastEnterPress s" "clock s - lastEnterPress s < 500"
    and dec: "blocks p = xs @ b # ys" "\<forall>y\<in>set xs. block_id y \<noteq> blockId" "block_id b = blockId"
  shows "fst (keydown planId blockId Enter txt k s) = SplitBlock"
    and "plan_blocks planId (snd (keydown planId blockId Enter txt k s))
           = Some (xs @ b\<lparr>content := take k txt\<rparr>
                # \<lparr>block_id = toString (clock s), content = drop k txt,
                    done_flag = False, collapsed = False\<rparr> # ys)"
    and "lastEnterPress (snd (keydown planId blockId Enter txt k s)) = 0"
proof -
  let ?new = "\<lparr>block_id = toString (clock s), content = drop k txt,
                done_flag = False, collapsed = False\<rparr>"
  let ?s1 = "updateBlock planId blockId (take k txt) s"
  let ?ins = "\<lambda>p. p\<lparr>blocks := splice_insert (int (length xs) + 1) ?new (blocks p)\<rparr>"
  have idx: "findIndex (\<lambda>b. block_id b = blockId) (blocks p) = int (length xs)"
    using dec by (simp add: findIndex_append)
  have f1: "find_plan planId ?s1 = Some (set_content blockId (take k txt) p)"
    using fp fb by (rule find_plan_updateBlock)
  have b1: "blocks (set_content blockId (take k txt) p) = xs @ b\<lparr>content := take k txt\<rparr> # ys"
    using dec by (simp add: set_content_def update_first_append)
  have pid: "plan_id (?ins (set_content blockId (take k txt) p)) = planId"
    using fp by (simp add: set_content_def find_plan_id)
  have f2: "find_plan planId (update_plan planId ?ins ?s1)
              = Some (?ins (set_content blockId (take k txt) p))"
    using f1 pid by (rule find_plan_update_plan)
  have k: "keydown planId blockId Enter txt k s
             = (SplitBlock, (render (savePlans True (update_plan planId ?ins ?s1)))
                               \<lparr>lastEnterPress := 0\<rparr>)"
    using fp t idx by (simp add: keydown_def Let_def)
  show "fst (keydown planId blockId Enter txt k s) = SplitBlock"
    using k by simp
  show "lastEnterPress (snd (keydown planId blockId Enter txt k s)) = 0"
    using k by simp
  show "plan_blocks planId (snd (keydown planId blockId Enter txt k s))
           = Some (xs @ b\<lparr>content := take k txt\<rparr> # ?new # ys)"
    using k f2 b1 by (simp add: plan_blocks_def splice_insert_after)
qed

lemma keydown_Backspace_merge:
  assumes fp: "find_plan planId s = Some p"
    and dec: "blocks p = xs @ c # n # ys" "block_id n = newId"
      "\<forall>y\<in>set (xs @ c # ys). block_id y \<noteq> newId"
    and e: "trim txt = []"
  shows "fst (keydown planId newId Backspace txt k s) = MergedBlock"
    and "plan_blocks planId (snd (keydown planId newId Backspace txt k s)) = Some (xs @ c # ys)"
proof -
  let ?del = "\<lambda>p. p\<lparr>blocks := filter (\<lambda>b. block_id b \<noteq> newId) (blocks p)\<rparr>"
  have "findIndex (\<lambda>b. block_id b = newId) ((xs @ [c]) @ n # ys) = int (length (xs @ [c]))"
    using dec by (intro findIndex_append) auto
  then have idx: "findIndex (\<lambda>b. block_id b = newId) (blocks p) > 0"
    using dec(1) by simp
  have k: "keydown planId newId Backspace txt k s
             = (MergedBlock, render (savePlans False (update_plan planId ?del s)))"
    using fp idx e by (simp add: keydown_def Let_def)
  have "plan_id (?del p) = planId" using fp by (simp add: find_plan_id)
  with fp have f: "find_plan planId (update_plan planId ?del s) = Some (?del p)"
    by (rule find_plan_update_plan)
  have fl: "filter (\<lambda>b. block_id b \<noteq> newId) (xs @ c # n # ys) = xs @ c # ys"
    using dec(2,3) by (auto simp: filter_id_conv)
  show "fst (keydown planId newId Backspace txt k s) = MergedBlock"
    using k by simp
  show "plan_blocks planId (snd (keydown planId newId Backspace txt k s)) = Some (xs @ c # ys)"
    using k f fl dec(1) by (simp add: plan_blocks_def)
qed

lemma keydown_Backspace_nonempty:
  "trim txt \<noteq> [] \<Longrightarrow> keydown planId blockId Backspace txt k s = (Ignored, s)"
  by (simp add: keydown_def Let_def split: option.splits)






section \<open>Split, then merge\<close>

text \<open>
  C6, as stated, fails. The block \<open>b1\<close> holds "a " (a letter and a space), and so does
  its element, the text having no markup. Split at position 1, the second block holds
  " " and its element shows " ", whose trimmed text is empty; Backspace in it merges,
  and the plan is back to its two blocks, but \<open>b1\<close> now holds "a".
\<close>

theorem split_then_merge_counterexample:
  "fst (keydown (js ''p1'') (js ''b1'') Enter (js ''a '') 1 (split_state ''a '')) = SplitBlock
   \<and> fst (keydown (js ''p1'') (toString 1700000000000) Backspace (js '' '') 0
          (snd (keydown (js ''p1'') (js ''b1'') Enter (js ''a '') 1 (split_state ''a ''))))
       = MergedBlock
   \<and> map_option (map content) (plan_blocks (js ''p1'')
        (snd (keydown (js ''p1'') (toString 1700000000000) Backspace (js '' '') 0
           (snd (keydown (js ''p1'') (js ''b1'') Enter (js ''a '') 1 (split_state ''a ''))))))
       = Some [js ''a'', js ''z'']
   \<and> js ''a'' \<noteq> js ''a ''"
  by code_simp

text \<open>
  C6, amended. The handlers read the text of the element that has the focus; the
  element is rendered from the content of its block as HTML, so its text is the
  content itself when the content has no markup, and may differ otherwise. Let \<open>t\<close> be
  the text of the element of a block of a plan when the double Enter splits it at \<open>k\<close>,
  and let the id given to the new block be used by no block of the plan. The first block
  then holds \<open>t[0..k)\<close> and the new block, right after it, \<open>t[k..)\<close>. Let \<open>e\<close> be the text
  of the element of the new block when Backspace is pressed in it. Backspace merges
  exactly when the trimmed \<open>e\<close> is empty: the new block is deleted, the first block keeps
  \<open>t[0..k)\<close>, and the other blocks and their order are as before the split. Otherwise
  Backspace changes nothing. The merged plan has its original blocks exactly when
  \<open>t[0..k)\<close> is the content the first block had; when that content was \<open>t\<close>, exactly
  when \<open>k\<close> is the length of \<open>t\<close> (or beyond).
\<close>

theorem split_then_merge:
  assumes "find_plan planId s = Some p"
    and "find_block blockId p = Some b"
    and "0 < clock s - lastEnterPress s" and "clock s - lastEnterPress s < 500"
    and "toString (clock s) \<notin> block_id ` set (blocks p)"
  shows "\<exists>xs ys. blocks p = xs @ b # ys
      \<and> fst (keydown planId blockId Enter t k s) = SplitBlock
      \<and> plan_blocks planId (snd (keydown planId blockId Enter t k s))
           = Some (xs @ b\<lparr>content := take k t\<rparr>
                # \<lparr>block_id = toString (clock s), content = drop k t,
                    done_flag = False, collapsed = False\<rparr> # ys)
      \<and> (trim e = [] \<longrightarrow>
            fst (keydown planId (toString (clock s)) Backspace e c
                   (snd (keydown planId blockId Enter t k s))) = MergedBlock
          \<and> plan_blocks planId
              (snd (keydown planId (toString (clock s)) Backspace e c
                      (snd (keydown planId blockId Enter t k s))))
              = Some (xs @ b\<lparr>content := take k t\<rparr> # ys))
      \<and> (trim e \<noteq> [] \<longrightarrow>
            keydown planId (toString (clock s)) Backspace e c
              (snd (keydown planId blockId Enter t k s))
            = (Ignored, snd (keydown planId blockId Enter t k s)))
      \<and> (xs @ b\<lparr>content := take k t\<rparr> # ys = blocks p \<longleftrightarrow> take k t = content b)
      \<and> (content b = t \<longrightarrow>
            (xs @ b\<lparr>content := take k t\<rparr> # ys = blocks p \<longleftrightarrow> length t \<le> k))"
proof -
  let ?new = "\<lparr>block_id = toString (clock s), content = drop k t,
                done_flag = False, collapsed = False\<rparr>"
  let ?s' = "snd (keydown planId blockId Enter t k s)"
  from assms(2) obtain xs ys where dec: "blocks p = xs @ b # ys"
      "\<forall>y\<in>set xs. block_id y \<noteq> blockId" "block_id b = blockId"
    unfolding find_block_def using find_split [of "\<lambda>b. block_id b = blockId" "blocks p" b] by blast
  note sp = keydown_Enter_split [OF assms(1,2,3,4) dec, of t k]
  from sp(2) obtain p' where p': "find_plan planId ?s' = Some p'"
      "blocks p' = xs @ b\<lparr>content := take k t\<rparr> # ?new # ys"
    by (auto simp: plan_blocks_def)
  have fresh: "\<forall>y\<in>set (xs @ b\<lparr>content := take k t\<rparr> # ys). block_id y \<noteq> toString (clock s)"
  proof
    fix y assume "y \<in> set (xs @ b\<lparr>content := take k t\<rparr> # ys)"
    then have "block_id y \<in> block_id ` set (blocks p)"
      using dec(1) by auto
    then show "block_id y \<noteq> toString (clock s)"
      using assms(5) by metis
  qed
  have m: "trim e = [] \<longrightarrow>
            fst (keydown planId (toString (clock s)) Backspace e c ?s') = MergedBlock
          \<and> plan_blocks planId
              (snd (keydown planId (toString (clock s)) Backspace e c ?s'))
              = Some (xs @ b\<lparr>content := take k t\<rparr> # ys)"
    using keydown_Backspace_merge [OF p'(1) p'(2) _ fresh, of e c] by simp
  have n: "trim e \<noteq> [] \<longrightarrow>
            keydown planId (toString (clock s)) Backspace e c ?s' = (Ignored, ?s')"
    by (simp add: keydown_Backspace_nonempty)
  have q: "b\<lparr>content := take k t\<rparr> = b \<longleftrightarrow> take k t = content b"
    by (cases b) auto
  then have r: "xs @ b\<lparr>content := take k t\<rparr> # ys = blocks p \<longleftrightarrow> take k t = content b"
    using dec(1) by simp
  have r2: "content b = t \<longrightarrow>
      (xs @ b\<lparr>content := take k t\<rparr> # ys = blocks p \<longleftrightarrow> length t \<le> k)"
    using r by (auto simp: take_all_iff)
  show ?thesis
    using dec(1) sp(1) sp(2) m n r r2 by blast
qed

theorem split_then_merge_witness:
  "plan_blocks (js ''p1'')
     (snd (keydown (js ''p1'') (toString 1700000000000) Backspace [] 0
        (snd (keydown (js ''p1'') (js ''b1'') Enter (js ''ab'') 2 (split_state ''ab'')))))
   = Some [mk_block ''b1'' ''ab'', mk_block ''b2'' ''z'']"
proof -
  let ?p = "mk_plan ''p1'' ''X'' [mk_block ''b1'' ''ab'', mk_block ''b2'' ''z'']"
  let ?s = "split_state ''ab''"
  have f: "find_plan (js ''p1'') ?s = Some ?p"
    by (simp add: find_plan_def split_state_def mk_state_def mk_plan_def)
  have b: "find_block (js ''b1'') ?p = Some (mk_block ''b1'' ''ab'')"
    by (simp add: find_block_def mk_plan_def mk_block_def)
  have c: "content (mk_block ''b1'' ''ab'') = js ''ab''"
    by (simp add: mk_block_def)
  have t1: "0 < clock ?s - lastEnterPress ?s"
    by (simp add: split_state_def mk_state_def)
  have t2: "clock ?s - lastEnterPress ?s < 500"
    by (simp add: split_state_def mk_state_def)
  have ck: "clock ?s = 1700000000000"
    by (simp add: split_state_def mk_state_def)
  have fr: "toString (clock ?s) \<notin> block_id ` set (blocks ?p)"
    unfolding ck by code_simp
  have d: "trim [] = []" "length (js ''ab'') \<le> 2"
      "blocks ?p = [mk_block ''b1'' ''ab'', mk_block ''b2'' ''z'']"
    by (simp_all add: js_def trim_def mk_plan_def)
  show ?thesis
    using split_then_merge [OF f b t1 t2 fr, of "js ''ab''" 2 "[]" 0] c d unfolding ck by auto
qed

section \<open>Paste with separators\<close>

lemma split_sep_nonempty: "split_sep cur s \<noteq> []"
  by (induction cur s rule: split_sep.induct) (auto split: option.splits)

lemma fold_update_plan:
  assumes "find_plan planId st = Some q" and "\<And>i q. plan_id (f i q) = plan_id q"
  shows "find_plan planId (fold (\<lambda>i. update_plan planId (f i)) is st) = Some (fold f is q)"
  using assms(1)
proof (induction "is" arbitrary: st q)
  case Nil
  then show ?case by simp
next
  case (Cons i "is")
  have "plan_id (f i q) = planId"
    using Cons.prems assms(2) by (simp add: find_plan_id)
  then have "find_plan planId (update_plan planId (f i) st) = Some (f i q)"
    using Cons.prems by (intro find_plan_update_plan)
  then show ?case using Cons.IH by simp
qed

lemma fold_blocks:
  "fold (\<lambda>i p. p\<lparr>blocks := h i (blocks p)\<rparr>) is (q::plan) = q\<lparr>blocks := fold h is (blocks q)\<rparr>"
  by (induction "is" arbitrary: q) simp_all

lemma splice_insert_at:
  "splice_insert (int (length us)) x (us @ vs) = us @ x # vs"
  by (simp add: splice_insert_def Let_def)

lemma fold_splice:
  "1 \<le> m \<Longrightarrow>
   fold (\<lambda>i bs. splice_insert (int (length xs) + int i) (g i) bs) [1..<m] (xs @ c # ys)
     = xs @ c # map g [1..<m] @ ys"
proof (induction m)
  case 0
  then show ?case by simp
next
  case (Suc m)
  show ?case
  proof (cases "m = 0")
    case True
    then show ?thesis by simp
  next
    case False
    then have m: "1 \<le> m" by simp
    have len: "int (length xs) + int m = int (length (xs @ c # map g [1..<m]))"
      using m by simp
    have "splice_insert (int (length xs) + int m) (g m) ((xs @ c # map g [1..<m]) @ ys)
            = (xs @ c # map g [1..<m]) @ g m # ys"
      unfolding len by (rule splice_insert_at)
    then show ?thesis
      using Suc.IH [OF m] m by (simp add: upt_Suc_append)
  qed
qed

lemma map_nth_from_1: "map (\<lambda>i. f ((x # xs) ! i)) [1..<Suc (length xs)] = map f xs"
proof -
  have "map (\<lambda>i. f ((x # xs) ! i)) [1..<Suc (length xs)]
          = map (\<lambda>i. f ((x # xs) ! Suc i)) [0..<length xs]"
    by (simp add: map_Suc_upt [symmetric] del: upt_Suc)
  also have "\<dots> = map f (map (\<lambda>i. xs ! i) [0..<length xs])"
    by simp
  finally show ?thesis by (simp add: map_nth)
qed

lemma find_first_append:
  "\<forall>y\<in>set ys. \<not> P y \<Longrightarrow> P b \<Longrightarrow> find P (ys @ b # zs) = Some b"
  by (induction ys) auto

lemma find_plan_nth_update:
  assumes "find_plan planId s = Some p"
  shows "find_plan planId (update_plan planId (\<lambda>p. p\<lparr>blocks := h (blocks p)\<rparr>) s)
           = Some (p\<lparr>blocks := h (blocks p)\<rparr>)"
  using assms by (intro find_plan_update_plan) (simp_all add: find_plan_id)

lemma match_sep_LF:
  "startsWith s (LF # js ''---'' @ [LF]) \<Longrightarrow> match_sep s \<noteq> None"
proof -
  assume "startsWith s (LF # js ''---'' @ [LF])"
  then obtain r where "s = (LF # js ''---'' @ [LF]) @ r"
    unfolding startsWith_def by (metis append_take_drop_id)
  then show ?thesis
    by (simp add: match_sep_def Let_def js_def LF_def CR_def)
qed

lemma match_sep_CRLF:
  "startsWith s (CR # LF # js ''---'' @ [CR, LF]) \<Longrightarrow> match_sep s \<noteq> None"
proof -
  assume "startsWith s (CR # LF # js ''---'' @ [CR, LF])"
  then obtain r where "s = (CR # LF # js ''---'' @ [CR, LF]) @ r"
    unfolding startsWith_def by (metis append_take_drop_id)
  then show ?thesis
    by (simp add: match_sep_def Let_def js_def LF_def CR_def)
qed

lemma includes_str_drop:
  "includes_str s sub \<Longrightarrow> sub \<noteq> [] \<Longrightarrow> \<exists>i. startsWith (drop i s) sub"
proof (induction s)
  case Nil
  then show ?case by simp
next
  case (Cons x s)
  show ?case
  proof (cases "startsWith (x # s) sub")
    case True
    then have "startsWith (drop 0 (x # s)) sub" by simp
    then show ?thesis by blast
  next
    case False
    then obtain i where "startsWith (drop i s) sub" using Cons by auto
    then have "startsWith (drop (Suc i) (x # s)) sub" by simp
    then show ?thesis by blast
  qed
qed

lemma split_sep_two:
  "\<exists>i. match_sep (drop i s) \<noteq> None \<Longrightarrow> 2 \<le> length (split_sep cur s)"
proof (induction cur s rule: split_sep.induct)
  case (1 cur)
  then show ?case by (simp add: match_sep_def Let_def)
next
  case (2 cur c cs)
  show ?case
  proof (cases "match_sep (c # cs)")
    case (Some n)
    have "split_sep [] (drop n (c # cs)) \<noteq> []" by (rule split_sep_nonempty)
    then have "1 \<le> length (split_sep [] (drop n (c # cs)))"
      by (cases "split_sep [] (drop n (c # cs))") auto
    then show ?thesis using Some by simp
  next
    case None
    from "2.prems" obtain i where i: "match_sep (drop i (c # cs)) \<noteq> None" by blast
    then have "i \<noteq> 0" using None by (cases i) auto
    then obtain j where "i = Suc j" by (cases i) auto
    then have "match_sep (drop j cs) \<noteq> None" using i by simp
    then have "2 \<le> length (split_sep (cur @ [c]) cs)"
      using "2.IH"(1) [OF None] by blast
    then show ?thesis using None by simp
  qed
qed

lemma paste_guard_sections:
  assumes "includes_str s (LF # js ''---'' @ [LF])
         \<or> includes_str s (CR # LF # js ''---'' @ [CR, LF])"
  shows "2 \<le> length (split_sep [] s)"
proof -
  have "\<exists>i. match_sep (drop i s) \<noteq> None"
    using assms
  proof
    assume "includes_str s (LF # js ''---'' @ [LF])"
    then obtain i where "startsWith (drop i s) (LF # js ''---'' @ [LF])"
      using includes_str_drop by blast
    then show ?thesis using match_sep_LF by blast
  next
    assume "includes_str s (CR # LF # js ''---'' @ [CR, LF])"
    then obtain i where "startsWith (drop i s) (CR # LF # js ''---'' @ [CR, LF])"
      using includes_str_drop by blast
    then show ?thesis using match_sep_CRLF by blast
  qed
  then show ?thesis by (rule split_sep_two)
qed

subsection \<open>The split, line by line\<close>

lemma CR_LF [simp]: "CR \<noteq> LF" "LF \<noteq> CR"
  by (simp_all add: CR_def LF_def)

lemma sep_no_LF [simp]: "LF \<notin> set (js ''---'')" "CR \<notin> set (js ''---'')"
  by (simp_all add: js_def LF_def CR_def)

lemma is_sep_line_cases: "is_sep_line l \<longleftrightarrow> l = js ''---'' \<or> l = js ''---'' @ [CR]"
proof
  assume a: "is_sep_line l"
  show "l = js ''---'' \<or> l = js ''---'' @ [CR]"
  proof (cases "l \<noteq> [] \<and> last l = CR")
    case True
    then have "butlast l = js ''---''" using a by (simp add: is_sep_line_def chomp_def)
    moreover have "butlast l @ [last l] = l" using True by (intro append_butlast_last_id) simp
    ultimately show ?thesis using True by metis
  next
    case False
    then have "chomp l = l" unfolding chomp_def by auto
    then show ?thesis using a by (simp add: is_sep_line_def)
  qed
next
  assume "l = js ''---'' \<or> l = js ''---'' @ [CR]"
  then show "is_sep_line l"
  proof
    assume l: "l = js ''---''"
    have "last (js ''---'') \<noteq> CR" by (simp add: js_def CR_def)
    then show ?thesis using l by (simp add: is_sep_line_def chomp_def)
  next
    assume "l = js ''---'' @ [CR]"
    then show ?thesis by (simp add: is_sep_line_def chomp_def)
  qed
qed

lemma split_on_no_sep: "\<forall>l\<in>set (split_on c s). c \<notin> set l"
proof (induction s)
  case Nil
  then show ?case by simp
next
  case (Cons x s)
  then show ?case by (cases "split_on c s") auto
qed

lemma match_sep_char:
  assumes "c \<noteq> LF" and "c = CR \<longrightarrow> take 1 Y \<noteq> [LF]"
  shows "match_sep (c # Y) = None"
proof (cases "c = CR")
  case True
  then have "take 4 Y \<noteq> LF # js ''---''"
    using assms(2) by (cases Y) auto
  then show ?thesis using True by (simp add: match_sep_def)
next
  case False
  then show ?thesis using assms(1) by (simp add: match_sep_def)
qed

lemma split_sep_line:
  "LF \<notin> set l \<Longrightarrow> \<not> (l \<noteq> [] \<and> last l = CR \<and> take 1 rest = [LF]) \<Longrightarrow>
   split_sep cur (l @ rest) = split_sep (cur @ l) rest"
proof (induction l arbitrary: cur)
  case Nil
  then show ?case by simp
next
  case (Cons c l)
  have "c = CR \<longrightarrow> take 1 (l @ rest) \<noteq> [LF]"
  proof (cases l)
    case Nil
    then show ?thesis using Cons.prems(2) by auto
  next
    case (Cons x xs)
    then show ?thesis using Cons.prems(1) by auto
  qed
  then have m: "match_sep (c # l @ rest) = None"
    using Cons.prems(1) by (intro match_sep_char) auto
  have "\<not> (l \<noteq> [] \<and> last l = CR \<and> take 1 rest = [LF])"
    using Cons.prems(2) by auto
  then have "split_sep (cur @ [c]) (l @ rest) = split_sep ((cur @ [c]) @ l) rest"
    using Cons.prems(1) by (intro Cons.IH) auto
  then show ?case using m by simp
qed

lemma match_sep_hits:
  "match_sep (LF # js ''---'' @ LF # R) = Some 5"
  "match_sep (LF # js ''---'' @ CR # LF # R) = Some 6"
  "match_sep (CR # LF # js ''---'' @ LF # R) = Some 6"
  "match_sep (CR # LF # js ''---'' @ CR # LF # R) = Some 7"
  by (simp_all add: match_sep_def Let_def js_def CR_def LF_def)

lemma take1_Cons: "take 1 Z = [x] \<Longrightarrow> \<exists>R. Z = x # R"
  by (cases Z) auto

lemma sep_then:
  assumes "take 1 Z = [LF] \<or> (take 1 Z = [CR] \<and> take 1 (drop 1 Z) = [LF])"
  shows "(\<exists>R. Z = LF # R) \<or> (\<exists>R. Z = CR # LF # R)"
proof (cases Z)
  case Nil
  then show ?thesis using assms by simp
next
  case z: (Cons z Z')
  show ?thesis
  proof (cases Z')
    case Nil
    then show ?thesis using assms z by simp
  next
    case (Cons z' Z'')
    then show ?thesis using assms z by simp
  qed
qed

lemma match_sep_LF_Some:
  assumes "match_sep (LF # Y) = Some n"
  shows "(\<exists>R. Y = js ''---'' @ LF # R) \<or> (\<exists>R. Y = js ''---'' @ CR # LF # R)"
proof -
  have t3: "take 3 Y = js ''---''"
    using assms by (simp add: match_sep_def Let_def split: if_splits)
  have "take 1 (drop 3 Y) = [LF] \<or> (take 1 (drop 3 Y) = [CR] \<and> take 1 (drop 1 (drop 3 Y)) = [LF])"
    using assms by (simp add: match_sep_def Let_def split: if_splits)
  then have "(\<exists>R. drop 3 Y = LF # R) \<or> (\<exists>R. drop 3 Y = CR # LF # R)"
    by (rule sep_then)
  moreover have "take 3 Y @ drop 3 Y = Y"
    by (rule append_take_drop_id)
  ultimately show ?thesis
    unfolding t3 by metis
qed

lemma match_sep_CRLF_Some:
  assumes "match_sep (CR # LF # Y) = Some n"
  shows "(\<exists>R. Y = js ''---'' @ LF # R) \<or> (\<exists>R. Y = js ''---'' @ CR # LF # R)"
proof -
  have t3: "take 3 Y = js ''---''"
    using assms by (simp add: match_sep_def Let_def split: if_splits)
  have "take 1 (drop 3 Y) = [LF] \<or> (take 1 (drop 3 Y) = [CR] \<and> take 1 (drop 1 (drop 3 Y)) = [LF])"
    using assms by (simp add: match_sep_def Let_def split: if_splits)
  then have "(\<exists>R. drop 3 Y = LF # R) \<or> (\<exists>R. drop 3 Y = CR # LF # R)"
    by (rule sep_then)
  moreover have "take 3 Y @ drop 3 Y = Y"
    by (rule append_take_drop_id)
  ultimately show ?thesis
    unfolding t3 by metis
qed

lemma first_LF_unique:
  "LF \<notin> set a \<Longrightarrow> LF \<notin> set b \<Longrightarrow> a @ LF # x = b @ LF # y \<Longrightarrow> a = b \<and> x = y"
proof (induction a arbitrary: b)
  case Nil
  then show ?case by (cases b) auto
next
  case (Cons c a)
  then show ?case by (cases b) auto
qed

lemma sep_prefix_line:
  assumes "LF \<notin> set l"
    and "(\<exists>R. l @ LF # R' = js ''---'' @ LF # R) \<or> (\<exists>R. l @ LF # R' = js ''---'' @ CR # LF # R)"
  shows "is_sep_line l"
  using assms(2)
proof
  assume "\<exists>R. l @ LF # R' = js ''---'' @ LF # R"
  then obtain R where "l @ LF # R' = js ''---'' @ LF # R" by blast
  then have "l = js ''---''"
    using first_LF_unique [of l "js ''---''" R' R] assms(1) by simp
  then show ?thesis by (simp add: is_sep_line_cases)
next
  assume "\<exists>R. l @ LF # R' = js ''---'' @ CR # LF # R"
  then obtain R where "l @ LF # R' = (js ''---'' @ [CR]) @ LF # R" by auto
  then have "l = js ''---'' @ [CR]"
    using first_LF_unique [of l "js ''---'' @ [CR]" R' R] assms(1) by simp
  then show ?thesis by (simp add: is_sep_line_cases)
qed

lemma no_match_before_line:
  assumes "LF \<notin> set l" and "\<not> is_sep_line l"
  shows "match_sep (LF # l @ LF # R) = None" and "match_sep (CR # LF # l @ LF # R) = None"
proof -
  show "match_sep (LF # l @ LF # R) = None"
  proof (cases "match_sep (LF # l @ LF # R)")
    case (Some n)
    then have "is_sep_line l"
      using match_sep_LF_Some [OF Some] assms(1) by (intro sep_prefix_line) auto
    then show ?thesis using assms(2) by simp
  qed simp
  show "match_sep (CR # LF # l @ LF # R) = None"
  proof (cases "match_sep (CR # LF # l @ LF # R)")
    case (Some n)
    then have "is_sep_line l"
      using match_sep_CRLF_Some [OF Some] assms(1) by (intro sep_prefix_line) auto
    then show ?thesis using assms(2) by simp
  qed simp
qed

lemma no_match_before_last:
  assumes "LF \<notin> set l"
  shows "match_sep (LF # l) = None" and "match_sep (CR # LF # l) = None"
proof -
  have n: "\<not> ((\<exists>R. l = js ''---'' @ LF # R) \<or> (\<exists>R. l = js ''---'' @ CR # LF # R))"
    using assms by auto
  show "match_sep (LF # l) = None"
    using match_sep_LF_Some [of l] n by (cases "match_sep (LF # l)") auto
  show "match_sep (CR # LF # l) = None"
    using match_sep_CRLF_Some [of l] n by (cases "match_sep (CR # LF # l)") auto
qed


lemma chomp_split:
  "\<exists>e. l = chomp l @ e \<and> (e = [] \<or> e = [CR]) \<and> (e = [] \<longrightarrow> l = [] \<or> last l \<noteq> CR)"
proof (cases "l \<noteq> [] \<and> last l = CR")
  case True
  then have "butlast l @ [CR] = l" by (metis append_butlast_last_id)
  then have "l = chomp l @ [CR]" using True by (simp add: chomp_def)
  then show ?thesis by blast
next
  case False
  then have "chomp l = l" unfolding chomp_def by auto
  then show ?thesis using False by auto
qed

lemma chomp_append: "c = [] \<or> last c = LF \<Longrightarrow> chomp (c @ l) = c @ chomp l"
  by (cases "l = []") (auto simp: chomp_def butlast_append)

lemma split_sep_last: "LF \<notin> set l \<Longrightarrow> split_sep c l = [c @ l]"
  using split_sep_line [of l "[]" c] by simp

lemma scan_to_break:
  assumes "LF \<notin> set l0"
  shows "\<exists>e. (e = [] \<or> e = [CR]) \<and> l0 = chomp l0 @ e
           \<and> (\<forall>c Y. split_sep c (l0 @ LF # Y) = split_sep (c @ chomp l0) (e @ LF # Y))"
proof -
  define k where "k = chomp l0"
  obtain e where e: "l0 = k @ e" "e = [] \<or> e = [CR]" "e = [] \<longrightarrow> l0 = [] \<or> last l0 \<noteq> CR"
    unfolding k_def using chomp_split by blast
  have nl: "LF \<notin> set k" using assms e(1) by simp
  have "split_sep c (l0 @ LF # Y) = split_sep (c @ k) (e @ LF # Y)" for c Y
  proof -
    have "\<not> (k \<noteq> [] \<and> last k = CR \<and> take 1 (e @ LF # Y) = [LF])"
      using e by auto
    then have "split_sep c (k @ (e @ LF # Y)) = split_sep (c @ k) (e @ LF # Y)"
      using nl by (intro split_sep_line) auto
    then show ?thesis using e(1) by simp
  qed
  then show ?thesis using e(1,2) unfolding k_def by blast
qed

lemma hit_break:
  assumes "is_sep_line l" and "e = [] \<or> e = [CR]"
  shows "split_sep cur (e @ LF # l @ LF # R) = cur # split_sep [] R"
proof -
  have "l = js ''---'' \<or> l = js ''---'' @ [CR]"
    using assms(1) by (simp add: is_sep_line_cases)
  then show ?thesis
    using assms(2) by (auto simp: match_sep_def Let_def js_def CR_def LF_def)
qed

lemma skip_break:
  assumes "e = [] \<or> e = [CR]" and "match_sep (LF # Y) = None" and "match_sep (CR # LF # Y) = None"
  shows "split_sep cur (e @ LF # Y) = split_sep (cur @ e @ [LF]) Y"
  using assms by auto

text \<open>The split, read line by line.\<close>

lemma split_sep_lines:
  "c = [] \<or> last c = LF \<Longrightarrow> LF \<notin> set l0 \<Longrightarrow> \<forall>l\<in>set ls. LF \<notin> set l \<Longrightarrow> cur = c @ l0 \<Longrightarrow>
   split_sep c (join_lines (l0 # ls)) = line_sections cur ls"
proof (induction cur ls arbitrary: c l0 rule: line_sections.induct)
  case (1 cur)
  then show ?case by (simp add: split_sep_last)
next
  case (2 cur l)
  obtain e where e: "e = [] \<or> e = [CR]" "l0 = chomp l0 @ e"
    and sc: "\<And>c Y. split_sep c (l0 @ LF # Y) = split_sep (c @ chomp l0) (e @ LF # Y)"
    using scan_to_break [OF "2.prems"(2)] by blast
  have nl: "LF \<notin> set l" using "2.prems"(3) by simp
  have "split_sep c (l0 @ LF # l) = split_sep (c @ chomp l0) (e @ LF # l)"
    by (rule sc)
  also have "\<dots> = split_sep ((c @ chomp l0) @ e @ [LF]) l"
    using e(1) no_match_before_last [OF nl] by (intro skip_break)
  also have "(c @ chomp l0) @ e @ [LF] = c @ l0 @ [LF]"
    using e(2) by (metis append_assoc)
  also have "split_sep (c @ l0 @ [LF]) l = [(c @ l0 @ [LF]) @ l]"
    using nl by (rule split_sep_last)
  finally show ?case using "2.prems"(4) by simp
next
  case (3 cur l l' ls)
  obtain e where e: "e = [] \<or> e = [CR]" "l0 = chomp l0 @ e"
    and sc: "\<And>c Y. split_sep c (l0 @ LF # Y) = split_sep (c @ chomp l0) (e @ LF # Y)"
    using scan_to_break [OF "3.prems"(2)] by blast
  let ?R = "join_lines (l' # ls)"
  have nl: "LF \<notin> set l" "LF \<notin> set l'" "\<forall>x\<in>set ls. LF \<notin> set x"
    using "3.prems"(3) by simp_all
  have j: "join_lines (l0 # l # l' # ls) = l0 @ LF # l @ LF # ?R"
    by simp
  have s0: "split_sep c (l0 @ LF # l @ LF # ?R) = split_sep (c @ chomp l0) (e @ LF # l @ LF # ?R)"
    by (rule sc)
  show ?case
  proof (cases "is_sep_line l")
    case True
    have "split_sep (c @ chomp l0) (e @ LF # l @ LF # ?R) = (c @ chomp l0) # split_sep [] ?R"
      using True e(1) by (rule hit_break)
    moreover have "split_sep [] ?R = line_sections l' ls"
      using nl by (intro "3.IH"(1) [OF True]) auto
    moreover have "chomp cur = c @ chomp l0"
      using "3.prems"(1,4) by (simp add: chomp_append)
    ultimately show ?thesis using True s0 j by simp
  next
    case False
    have a: "split_sep (c @ chomp l0) (e @ LF # l @ LF # ?R)
            = split_sep ((c @ chomp l0) @ e @ [LF]) (l @ LF # ?R)"
      using e(1) no_match_before_line [OF nl(1) False] by (intro skip_break)
    have b: "(c @ chomp l0) @ e @ [LF] = c @ l0 @ [LF]"
      using e(2) by (metis append_assoc)
    have "split_sep (c @ l0 @ [LF]) (join_lines (l # l' # ls))
            = line_sections (cur @ LF # l) (l' # ls)"
      using nl "3.prems"(4) by (intro "3.IH"(2) [OF False]) auto
    then have d: "split_sep (c @ l0 @ [LF]) (l @ LF # ?R) = line_sections (cur @ LF # l) (l' # ls)"
      by simp
    have "split_sep c (join_lines (l0 # l # l' # ls)) = line_sections (cur @ LF # l) (l' # ls)"
      unfolding j s0 a b by (rule d)
    then show ?thesis using False by simp
  qed
qed

lemma split_sep_line_sections:
  "split_sep [] text = line_sections (hd (split_on LF text)) (tl (split_on LF text))"
proof -
  obtain l0 ls where L: "split_on LF text = l0 # ls"
    using split_on_nonempty [of LF "text"] by (cases "split_on LF text") auto
  have nl: "LF \<notin> set l0" "\<forall>l\<in>set ls. LF \<notin> set l"
    using split_on_no_sep [of LF "text"] unfolding L by simp_all
  have "split_sep [] (join_lines (l0 # ls)) = line_sections l0 ls"
    using nl by (intro split_sep_lines) auto
  moreover have "join_lines (l0 # ls) = text"
    using join_split_on [of "text"] unfolding L .
  ultimately show ?thesis unfolding L by simp
qed

text \<open>Counting the sections.\<close>

lemma line_sections_le: "length (line_sections cur ls) \<le> length (filter is_sep_line ls) + 1"
  by (induction cur ls rule: line_sections.induct) auto

lemma line_sections_count:
  "seps_isolated (l0 # ls) \<Longrightarrow> length (line_sections cur ls) = length (filter is_sep_line ls) + 1"
proof (induction cur ls arbitrary: l0 rule: line_sections.induct)
  case (1 cur)
  then show ?case by simp
next
  case (2 cur l)
  then show ?case by (auto split: if_splits)
next
  case (3 cur l l' ls)
  show ?case
  proof (cases "is_sep_line l")
    case True
    then have i: "seps_isolated (l' # ls)" using "3.prems" by simp
    then have "\<not> is_sep_line l'" by (cases ls) auto
    then show ?thesis using True "3.IH"(1) [OF True i] by simp
  next
    case False
    then have "seps_isolated (l # l' # ls)" using "3.prems" by simp
    then show ?thesis using False "3.IH"(2) [OF False] by simp
  qed
qed

lemma line_sections_less:
  "\<not> is_sep_line l0 \<Longrightarrow> \<not> seps_isolated (l0 # ls) \<Longrightarrow>
   length (line_sections cur ls) \<le> length (filter is_sep_line ls)"
proof (induction cur ls arbitrary: l0 rule: line_sections.induct)
  case (1 cur)
  then show ?case by simp
next
  case (2 cur l)
  then show ?case by (auto split: if_splits)
next
  case (3 cur l l' ls)
  show ?case
  proof (cases "is_sep_line l")
    case True
    then have i: "\<not> seps_isolated (l' # ls)" using "3.prems" by simp
    show ?thesis
    proof (cases "is_sep_line l'")
      case s: True
      then show ?thesis using True line_sections_le [of l' ls] by simp
    next
      case False
      then show ?thesis using True "3.IH"(1) [OF True False i] by simp
    qed
  next
    case False
    then have "\<not> seps_isolated (l # l' # ls)" using "3.prems" by simp
    then show ?thesis using False "3.IH"(2) [OF False False] by simp
  qed
qed

lemma spec_separator_lines_filter:
  "spec_separator_lines text = length (filter is_sep_line (split_on LF text))"
proof -
  have "(\<lambda>l. if l \<noteq> [] \<and> last l = CR then butlast l else l) = chomp"
    by (rule ext) (simp add: chomp_def)
  then have "spec_lines text = map chomp (split_on LF text)"
    by (simp add: spec_lines_def)
  moreover have "(\<lambda>l. l = js ''---'') \<circ> chomp = is_sep_line"
    by (rule ext) (simp add: is_sep_line_def)
  ultimately show ?thesis
    by (simp add: spec_separator_lines_def filter_map)
qed

lemma split_sep_count:
  "length (split_sep [] text) = spec_separator_lines text + 1
     \<longleftrightarrow> seps_isolated (split_on LF text)"
proof -
  obtain l0 ls where L: "split_on LF text = l0 # ls"
    using split_on_nonempty [of LF "text"] by (cases "split_on LF text") auto
  have s: "split_sep [] text = line_sections l0 ls"
    using split_sep_line_sections [of "text"] unfolding L by simp
  show ?thesis
  proof (cases "seps_isolated (l0 # ls)")
    case True
    then have "\<not> is_sep_line l0" by (cases ls) auto
    then show ?thesis
      using True line_sections_count [OF True, of l0]
      unfolding s spec_separator_lines_filter L by simp
  next
    case False
    show ?thesis
    proof (cases "is_sep_line l0")
      case t: True
      then show ?thesis
        using False line_sections_le [of l0 ls]
        unfolding s spec_separator_lines_filter L by simp
    next
      case f: False
      then show ?thesis
        using False line_sections_less [OF f False, of l0]
        unfolding s spec_separator_lines_filter L by simp
    qed
  qed
qed

text \<open>The sections as groups of lines.\<close>

lemma CR_space [simp]: "is_space CR"
  by (simp add: is_space_def CR_def)

lemma trim_snoc_CR: "trim (y @ [CR]) = trim y"
  by (rule trim_snoc_space) simp

lemma trim_chomp: "trim (chomp x) = trim x"
proof (cases "x \<noteq> [] \<and> last x = CR")
  case True
  then have x: "butlast x @ [CR] = x" by (metis append_butlast_last_id)
  have "trim (butlast x @ [CR]) = trim (butlast x)"
    by (rule trim_snoc_CR)
  then show ?thesis using True x by (simp add: chomp_def)
next
  case False
  then have "chomp x = x" unfolding chomp_def by auto
  then show ?thesis by simp
qed

lemma line_sections_groups:
  "seps_isolated (l0 # ls) \<Longrightarrow> g \<noteq> [] \<Longrightarrow> cur = join_lines g \<Longrightarrow>
   map trim (line_sections cur ls) = map (\<lambda>g. trim (join_lines g)) (line_groups g ls)"
proof (induction cur ls arbitrary: l0 g rule: line_sections.induct)
  case (1 cur)
  then show ?case by simp
next
  case (2 cur l)
  then have "\<not> is_sep_line l" by (auto split: if_splits)
  then show ?case using 2 by (simp add: join_lines_snoc)
next
  case (3 cur l l' ls)
  show ?case
  proof (cases "is_sep_line l")
    case True
    then have i: "seps_isolated (l' # ls)" using "3.prems" by simp
    then have n: "\<not> is_sep_line l'" by (cases ls) auto
    have "map trim (line_sections l' ls) = map (\<lambda>g. trim (join_lines g)) (line_groups [l'] ls)"
      using i by (intro "3.IH"(1) [OF True]) auto
    then show ?thesis using True n "3.prems"(3) by (simp add: trim_chomp)
  next
    case False
    then have i: "seps_isolated (l # l' # ls)" using "3.prems" by simp
    have "map trim (line_sections (cur @ LF # l) (l' # ls))
            = map (\<lambda>g. trim (join_lines g)) (line_groups (g @ [l]) (l' # ls))"
      using i "3.prems"(2,3) by (intro "3.IH"(2) [OF False]) (auto simp: join_lines_snoc)
    then show ?thesis using False by simp
  qed
qed

lemma split_sep_groups:
  assumes "seps_isolated (split_on LF text)"
  shows "map trim (split_sep [] text) = map trim (spec_sections text)"
proof -
  obtain l0 ls where L: "split_on LF text = l0 # ls"
    using split_on_nonempty [of LF "text"] by (cases "split_on LF text") auto
  have i: "seps_isolated (l0 # ls)" using assms unfolding L .
  then have n: "\<not> is_sep_line l0" by (cases ls) auto
  have "map trim (line_sections l0 ls) = map (\<lambda>g. trim (join_lines g)) (line_groups [l0] ls)"
    using i by (intro line_sections_groups) auto
  then show ?thesis
    using n split_sep_line_sections [of "text"] unfolding L spec_sections_def
    by (simp add: comp_def)
qed

subsection \<open>The paste\<close>

text \<open>
  C4, as stated, fails. The pasted text "a", "---", "---", "b" (four lines) has two
  lines that consist solely of \<open>---\<close>, so three blocks are promised. The first
  match of the pattern takes the line break before the second \<open>---\<close>, which is
  therefore no match: the target is replaced by two blocks, "a" and "---", "b".
\<close>

theorem paste_adjacent_separators_counterexample:
  "spec_separator_lines (js ''a'' @ [LF] @ js ''---'' @ [LF] @ js ''---'' @ [LF] @ js ''b'') = 2
   \<and> fst (paste (js ''p1'') (js ''b1'')
          (js ''a'' @ [LF] @ js ''---'' @ [LF] @ js ''---'' @ [LF] @ js ''b'')
          (mk_state [mk_plan ''p1'' ''X'' [mk_block ''b1'' []]])) = PasteSplit
   \<and> map_option (map content) (plan_blocks (js ''p1'')
        (snd (paste (js ''p1'') (js ''b1'')
           (js ''a'' @ [LF] @ js ''---'' @ [LF] @ js ''---'' @ [LF] @ js ''b'')
           (mk_state [mk_plan ''p1'' ''X'' [mk_block ''b1'' []]]))))
       = Some [js ''a'', js ''---'' @ [LF] @ js ''b'']"
  by code_simp

text \<open>
  C4, amended. Let the pasted text contain \<open>\n---\n\<close> or \<open>\r\n---\r\n\<close> (the handler
  leaves any other text to the browser). Pasted into an existing block of an existing
  plan, it is cut into sections by \<open>/\r?\n---\r?\n/\<close> and gives one block per section in
  place of the target: the target block with the trimmed first section as its content,
  followed by one new block, not done and not collapsed, for each further section,
  trimmed, in the order of the sections. The blocks before and after the target stay as
  they are.

  The sections are those of \<open>line_sections\<close>: a line that consists solely of \<open>---\<close>
  is a separator unless it is the first line, the last line, or the line right after a
  separator. So the number of blocks is the number of such lines plus one exactly when
  these lines are isolated (none first, none last, no two adjacent): a text with
  \<open>n - 1\<close> isolated separator lines gives exactly \<open>n\<close> blocks, whose contents are the
  trimmed sections between the separator lines, in order.
\<close>

theorem paste_split:
  assumes fp: "find_plan planId s = Some p"
    and fb: "find_block blockId p = Some b"
    and sep: "includes_str text (LF # js ''---'' @ [LF])
              \<or> includes_str text (CR # LF # js ''---'' @ [CR, LF])"
  shows "(\<exists>xs ys. blocks p = xs @ b # ys
      \<and> fst (paste planId blockId text s) = PasteSplit
      \<and> plan_blocks planId (snd (paste planId blockId text s))
           = Some (xs
                @ b\<lparr>content := trim (hd (split_sep [] text))\<rparr>
                # map (\<lambda>i. \<lparr>block_id = toString (clock s) @ toString (int i),
                              content = trim (split_sep [] text ! i),
                              done_flag = False, collapsed = False\<rparr>)
                    [1..<length (split_sep [] text)]
                @ ys)
      \<and> map content
            (b\<lparr>content := trim (hd (split_sep [] text))\<rparr>
              # map (\<lambda>i. \<lparr>block_id = toString (clock s) @ toString (int i),
                            content = trim (split_sep [] text ! i),
                            done_flag = False, collapsed = False\<rparr>)
                  [1..<length (split_sep [] text)])
          = map trim (split_sep [] text)
      \<and> 2 \<le> length (split_sep [] text))
    \<and> split_sep [] text = line_sections (hd (split_on LF text)) (tl (split_on LF text))
    \<and> (length (split_sep [] text) = spec_separator_lines text + 1
          \<longleftrightarrow> seps_isolated (split_on LF text))
    \<and> (seps_isolated (split_on LF text)
          \<longrightarrow> map trim (split_sep [] text) = map trim (spec_sections text))"
proof -
  obtain first rest where sec: "split_sep [] text = first # rest"
    using split_sep_nonempty [of "[]" "text"] by (cases "split_sep [] text") auto
  let ?g = "\<lambda>i. \<lparr>block_id = toString (clock s) @ toString (int i),
                   content = trim ((first # rest) ! i),
                   done_flag = False, collapsed = False\<rparr>"
  from fb obtain xs ys where dec: "blocks p = xs @ b # ys"
      "\<forall>y\<in>set xs. block_id y \<noteq> blockId" "block_id b = blockId"
    unfolding find_block_def using find_split [of "\<lambda>b. block_id b = blockId" "blocks p" b] by blast
  have idx: "findIndex (\<lambda>b. block_id b = blockId) (blocks p) = int (length xs)"
    using dec by (simp add: findIndex_append)
  let ?b' = "b\<lparr>content := trim first\<rparr>"
  let ?h1 = "\<lambda>bs. bs[length xs := (bs ! length xs)\<lparr>content := trim first\<rparr>]"
  let ?s1 = "update_plan planId (\<lambda>p. p\<lparr>blocks := ?h1 (blocks p)\<rparr>) s"
  let ?p1 = "p\<lparr>blocks := xs @ ?b' # ys\<rparr>"
  have f1: "find_plan planId ?s1 = Some ?p1"
    using find_plan_nth_update [OF fp, of ?h1] dec(1) by simp
  have fb1: "find_block blockId ?p1 = Some ?b'"
    using dec(2,3) by (simp add: find_block_def find_first_append)
  let ?s2 = "updateBlock planId blockId (trim first) ?s1"
  have f2: "find_plan planId ?s2 = Some ?p1"
    using find_plan_updateBlock [OF f1 fb1, of "trim first"] dec(2,3)
    by (simp add: set_content_def update_first_append)
  let ?F = "\<lambda>i p. p\<lparr>blocks := splice_insert (int (length xs) + int i) (?g i) (blocks p)\<rparr>"
  let ?s3 = "fold (\<lambda>i. update_plan planId (?F i)) [1..<length (first # rest)] ?s2"
  have f3: "find_plan planId ?s3 = Some (fold ?F [1..<length (first # rest)] ?p1)"
    using f2 by (rule fold_update_plan) simp
  have "fold ?F [1..<length (first # rest)] ?p1
          = ?p1\<lparr>blocks := fold (\<lambda>i bs. splice_insert (int (length xs) + int i) (?g i) bs)
                              [1..<length (first # rest)] (blocks ?p1)\<rparr>"
    by (rule fold_blocks)
  also have "\<dots> = ?p1\<lparr>blocks := xs @ ?b' # map ?g [1..<length (first # rest)] @ ys\<rparr>"
    using fold_splice [of "length (first # rest)" xs ?g ?b' ys] by simp
  finally have b3: "blocks (fold ?F [1..<length (first # rest)] ?p1)
                      = xs @ ?b' # map ?g [1..<length (first # rest)] @ ys"
    by simp
  have k: "paste planId blockId text s = (PasteSplit, render (savePlans True ?s3))"
    using fp sep idx sec by (simp add: paste_def Let_def)
  have c: "map content (?b' # map ?g [1..<length (first # rest)]) = map trim (first # rest)"
    using map_nth_from_1 [of trim first rest] by (simp add: comp_def del: upt_Suc)
  have "plan_blocks planId (snd (paste planId blockId text s))
          = Some (xs @ ?b' # map ?g [1..<length (first # rest)] @ ys)"
    using k f3 b3 by (simp add: plan_blocks_def)
  moreover have "2 \<le> length (split_sep [] text)"
    using sep by (rule paste_guard_sections)
  ultimately have main: "\<exists>xs ys. blocks p = xs @ b # ys
      \<and> fst (paste planId blockId text s) = PasteSplit
      \<and> plan_blocks planId (snd (paste planId blockId text s))
           = Some (xs
                @ b\<lparr>content := trim (hd (split_sep [] text))\<rparr>
                # map (\<lambda>i. \<lparr>block_id = toString (clock s) @ toString (int i),
                              content = trim (split_sep [] text ! i),
                              done_flag = False, collapsed = False\<rparr>)
                    [1..<length (split_sep [] text)]
                @ ys)
      \<and> map content
            (b\<lparr>content := trim (hd (split_sep [] text))\<rparr>
              # map (\<lambda>i. \<lparr>block_id = toString (clock s) @ toString (int i),
                            content = trim (split_sep [] text ! i),
                            done_flag = False, collapsed = False\<rparr>)
                  [1..<length (split_sep [] text)])
          = map trim (split_sep [] text)
      \<and> 2 \<le> length (split_sep [] text)"
    using dec(1) k c unfolding sec by (intro exI [of _ xs] exI [of _ ys]) simp
  have ls: "split_sep [] text = line_sections (hd (split_on LF text)) (tl (split_on LF text))"
    by (rule split_sep_line_sections)
  have cnt: "length (split_sep [] text) = spec_separator_lines text + 1
               \<longleftrightarrow> seps_isolated (split_on LF text)"
    by (rule split_sep_count)
  have grp: "seps_isolated (split_on LF text)
               \<longrightarrow> map trim (split_sep [] text) = map trim (spec_sections text)"
    using split_sep_groups by blast
  show ?thesis
    using main ls cnt grp by (intro conjI)
qed

theorem paste_split_witness:
  "map_option (map content) (plan_blocks (js ''p1'') (snd (paste (js ''p1'') (js ''b1'')
      (js ''a'' @ [LF] @ js ''---'' @ [LF] @ js '' b '' @ [CR, LF] @ js ''---'' @ [CR, LF] @ js ''c'')
      (mk_state [mk_plan ''p1'' ''X'' [mk_block ''b1'' []]]))))
   = Some [js ''a'', js ''b'', js ''c'']
   \<and> spec_separator_lines
       (js ''a'' @ [LF] @ js ''---'' @ [LF] @ js '' b '' @ [CR, LF] @ js ''---'' @ [CR, LF] @ js ''c'')
     = 2"
proof -
  let ?t = "js ''a'' @ [LF] @ js ''---'' @ [LF] @ js '' b '' @ [CR, LF] @ js ''---'' @ [CR, LF]
              @ js ''c''"
  let ?p = "mk_plan ''p1'' ''X'' [mk_block ''b1'' []]"
  let ?s = "mk_state [?p]"
  have f: "find_plan (js ''p1'') ?s = Some ?p"
    by (simp add: find_plan_def mk_state_def mk_plan_def)
  have b: "find_block (js ''b1'') ?p = Some (mk_block ''b1'' [])"
    by (simp add: find_block_def mk_plan_def mk_block_def)
  have i: "includes_str ?t (LF # js ''---'' @ [LF])
           \<or> includes_str ?t (CR # LF # js ''---'' @ [CR, LF])"
    by code_simp
  have iso: "seps_isolated (split_on LF ?t)"
    by code_simp
  have ss: "map trim (spec_sections ?t) = [js ''a'', js ''b'', js ''c'']"
    by code_simp
  have bl: "blocks ?p = [mk_block ''b1'' []]"
    by (simp add: mk_plan_def)
  note th = paste_split [OF f b i]
  from th obtain xs ys where
    d: "blocks ?p = xs @ mk_block ''b1'' [] # ys"
    and r: "plan_blocks (js ''p1'') (snd (paste (js ''p1'') (js ''b1'') ?t ?s))
      = Some (xs @ (mk_block ''b1'' [])\<lparr>content := trim (hd (split_sep [] ?t))\<rparr>
          # map (\<lambda>i. \<lparr>block_id = toString (clock ?s) @ toString (int i),
                        content = trim (split_sep [] ?t ! i),
                        done_flag = False, collapsed = False\<rparr>)
              [1..<length (split_sep [] ?t)] @ ys)"
    and m: "map content
            ((mk_block ''b1'' [])\<lparr>content := trim (hd (split_sep [] ?t))\<rparr>
              # map (\<lambda>i. \<lparr>block_id = toString (clock ?s) @ toString (int i),
                            content = trim (split_sep [] ?t ! i),
                            done_flag = False, collapsed = False\<rparr>)
                  [1..<length (split_sep [] ?t)])
          = map trim (split_sep [] ?t)"
    by blast
  have e: "xs = [] \<and> ys = []"
    using d unfolding bl by (simp add: Cons_eq_append_conv)
  have tr: "map trim (split_sep [] ?t) = [js ''a'', js ''b'', js ''c'']"
    using mp [OF th [THEN conjunct2, THEN conjunct2, THEN conjunct2] iso] unfolding ss .
  have n: "length (split_sep [] ?t) = spec_separator_lines ?t + 1"
    using iffD2 [OF th [THEN conjunct2, THEN conjunct2, THEN conjunct1] iso] .
  have "length (map trim (split_sep [] ?t)) = 3"
    unfolding tr by simp
  then have cnt: "spec_separator_lines ?t = 2"
    using n by simp
  have "map_option (map content) (plan_blocks (js ''p1'') (snd (paste (js ''p1'') (js ''b1'') ?t ?s)))
          = Some (map trim (split_sep [] ?t))"
    unfolding r m [symmetric] using e by simp
  then show ?thesis
    using tr cnt by simp
qed

section \<open>Reordering\<close>

lemma insert_cmp_key: "insert_cmp (\<lambda>a b. f a - f b) x ys = insort_key f x ys"
  for f :: "'a \<Rightarrow> int"
  by (induction ys) auto

lemma sort_cmp_key: "sort_cmp (\<lambda>a b. f a - f b) xs = sort_key f xs"
  for f :: "'a \<Rightarrow> int"
  by (induction xs) (simp_all add: sort_cmp_def insert_cmp_key)

lemma indexOf_absent: "v \<notin> set xs \<Longrightarrow> indexOf xs v = -1"
  unfolding indexOf_def by (rule findIndex_none) auto

lemma findIndex_Some:
  "\<exists>x\<in>set xs. P x \<Longrightarrow>
   0 \<le> findIndex P xs \<and> findIndex P xs < int (length xs) \<and> P (xs ! nat (findIndex P xs))"
proof (induction xs)
  case Nil
  then show ?case by simp
next
  case (Cons x xs)
  show ?case
  proof (cases "P x")
    case True
    then show ?thesis by simp
  next
    case False
    then have "\<exists>x\<in>set xs. P x" using Cons.prems by auto
    then have ih: "0 \<le> findIndex P xs \<and> findIndex P xs < int (length xs)
       \<and> P (xs ! nat (findIndex P xs))"
      by (rule Cons.IH)
    then show ?thesis using False by (simp add: Let_def nat_add_distrib)
  qed
qed

lemma indexOf_present:
  "v \<in> set xs \<Longrightarrow> 0 \<le> indexOf xs v \<and> indexOf xs v < int (length xs) \<and> xs ! nat (indexOf xs v) = v"
  unfolding indexOf_def using findIndex_Some [of xs "\<lambda>x. x = v"] by auto

lemma indexOf_inj:
  "v \<in> set xs \<Longrightarrow> w \<in> set xs \<Longrightarrow> indexOf xs v = indexOf xs w \<Longrightarrow> v = w"
  using indexOf_present by metis


lemma indexOf_nth:
  assumes "distinct xs" and "i < length xs"
  shows "indexOf xs (xs ! i) = int i"
proof -
  have m: "xs ! i \<in> set xs" using assms(2) by simp
  let ?j = "nat (indexOf xs (xs ! i))"
  have "0 \<le> indexOf xs (xs ! i)" "?j < length xs" "xs ! ?j = xs ! i"
    using indexOf_present [OF m] by auto
  then have "?j = i"
    using assms by (simp add: nth_eq_iff_index_eq)
  then show ?thesis
    using \<open>0 \<le> indexOf xs (xs ! i)\<close> by simp
qed

lemma map_indexOf_self:
  assumes "distinct xs"
  shows "map (indexOf xs) xs = map int [0..<length xs]"
  using assms by (intro nth_equalityI) (simp_all add: indexOf_nth)

lemma sorted_keys_order:
  fixes newOrder :: "'a list" and ids :: "'a list"
  assumes d: "distinct ids" and s: "set ids = set newOrder" and dn: "distinct newOrder"
    and srt: "sorted (map (indexOf newOrder) ids)"
  shows "ids = newOrder"
proof -
  have inj: "inj_on (indexOf newOrder) (set newOrder)"
    by (rule inj_onI) (rule indexOf_inj)
  have d1: "distinct (map (indexOf newOrder) ids)"
    using d inj s by (simp add: distinct_map)
  have s2: "sorted (map (indexOf newOrder) newOrder)" "distinct (map (indexOf newOrder) newOrder)"
    using dn inj by (simp_all add: map_indexOf_self distinct_map sorted_map comp_def
        del: map_map)
  have "set (map (indexOf newOrder) ids) = set (map (indexOf newOrder) newOrder)"
    using s by simp
  then have "map (indexOf newOrder) ids = map (indexOf newOrder) newOrder"
    using srt d1 s2 by (intro sorted_distinct_set_unique)
  then show ?thesis
    using inj s by (simp add: inj_on_map_eq_map)
qed

lemma sorted_partition:
  fixes f :: "'a \<Rightarrow> int"
  assumes "sorted (map f ys)" and "\<And>x. P x \<Longrightarrow> f x = m" and "\<And>x. \<not> P x \<Longrightarrow> m < f x"
  shows "ys = filter P ys @ filter (\<lambda>x. \<not> P x) ys"
  using assms(1)
proof (induction ys)
  case Nil
  then show ?case by simp
next
  case (Cons y ys)
  then have ih: "ys = filter P ys @ filter (\<lambda>x. \<not> P x) ys" by simp
  show ?case
  proof (cases "P y")
    case True
    then show ?thesis using ih by simp
  next
    case False
    have "\<forall>x\<in>set ys. \<not> P x"
    proof
      fix x assume x: "x \<in> set ys"
      then have "f y \<le> f x" using Cons.prems by auto
      then show "\<not> P x" using assms(2) [of x] assms(3) [OF False] by auto
    qed
    then have "filter P ys = []" "filter (\<lambda>x. \<not> P x) ys = ys"
      by (simp_all add: filter_empty_conv filter_id_conv)
    then show ?thesis using False by simp
  qed
qed

lemma indexOf_ge: "- 1 \<le> indexOf xs v"
  unfolding indexOf_def using findIndex_nonneg_or [of "\<lambda>x. x = v" xs] by auto

text \<open>
  C7. When a block is dropped in the open plan, the blocks of the plan are sorted,
  stably, by the position of their id in \<open>newOrder\<close>: the result has the same blocks
  (each with its id, content, done and collapsed fields; none added, none removed). If
  the block ids of the plan are unique, as the data model requires, and \<open>newOrder\<close>
  is a permutation of them, the ids of the result are \<open>newOrder\<close> itself. An id that
  is not in \<open>newOrder\<close> has index -1: the blocks with such ids come first, in the
  order they had.
\<close>

theorem drop_reorder:
  assumes "draggedBlock s = Some d" and "currentPlanId s = Some planId"
    and "find_plan planId s = Some p"
  shows "\<exists>bs'. plan_blocks planId (drop_handler newOrder s) = Some bs'
      \<and> mset bs' = mset (blocks p)
      \<and> (distinct (map block_id (blocks p)) \<and> mset newOrder = mset (map block_id (blocks p))
           \<longrightarrow> map block_id bs' = newOrder)
      \<and> (\<forall>i. i \<notin> set newOrder \<longrightarrow> indexOf newOrder i = -1)
      \<and> bs' = filter (\<lambda>b. block_id b \<notin> set newOrder) bs'
                @ filter (\<lambda>b. block_id b \<in> set newOrder) bs'
      \<and> filter (\<lambda>b. block_id b \<notin> set newOrder) bs'
           = filter (\<lambda>b. block_id b \<notin> set newOrder) (blocks p)"
proof -
  let ?key = "\<lambda>b. indexOf newOrder (block_id b)"
  let ?bs' = "sort_key ?key (blocks p)"
  let ?srt = "\<lambda>p. p\<lparr>blocks := sort_cmp
     (\<lambda>a b. indexOf newOrder (block_id a) - indexOf newOrder (block_id b)) (blocks p)\<rparr>"
  have "plan_id (?srt p) = planId" using assms(3) by (simp add: find_plan_id)
  with assms(3) have "find_plan planId (update_plan planId ?srt s) = Some (?srt p)"
    by (rule find_plan_update_plan)
  then have r: "plan_blocks planId (drop_handler newOrder s) = Some ?bs'"
    using assms by (simp add: drop_handler_def plan_blocks_def sort_cmp_key)
  have m: "mset ?bs' = mset (blocks p)" by simp
  have srt: "sorted (map ?key ?bs')" by (rule sorted_sort_key)
  have perm: "map block_id ?bs' = newOrder"
    if h: "distinct (map block_id (blocks p))" "mset newOrder = mset (map block_id (blocks p))"
  proof -
    have "mset (map block_id ?bs') = mset (map block_id (blocks p))"
      by simp
    then have d: "distinct (map block_id ?bs')" and st: "set (map block_id ?bs') = set newOrder"
      using h by (metis mset_eq_imp_distinct_iff, metis mset_eq_setD)
    have dn: "distinct newOrder"
      using h by (metis mset_eq_imp_distinct_iff)
    have "sorted (map (indexOf newOrder) (map block_id ?bs'))"
      using srt by (simp add: comp_def)
    with d st dn show ?thesis by (rule sorted_keys_order)
  qed
  have ab: "\<forall>i. i \<notin> set newOrder \<longrightarrow> indexOf newOrder i = -1"
    by (simp add: indexOf_absent)
  have part: "?bs' = filter (\<lambda>b. block_id b \<notin> set newOrder) ?bs'
                @ filter (\<lambda>b. \<not> block_id b \<notin> set newOrder) ?bs'"
  proof (rule sorted_partition [where f = ?key and m = "-1"])
    show "sorted (map ?key ?bs')" by (rule srt)
  next
    fix x :: block assume "block_id x \<notin> set newOrder"
    then show "?key x = -1" by (rule indexOf_absent)
  next
    fix x :: block assume "\<not> block_id x \<notin> set newOrder"
    then have "0 \<le> ?key x" using indexOf_present [of "block_id x" newOrder] by simp
    then show "-1 < ?key x" by simp
  qed
  have eq: "(\<lambda>b::block. block_id b \<notin> set newOrder) = (\<lambda>b. ?key b = -1)"
  proof
    fix b :: block
    show "(block_id b \<notin> set newOrder) = (?key b = -1)"
      using indexOf_absent [of "block_id b" newOrder] indexOf_present [of "block_id b" newOrder]
      by auto
  qed
  have stab: "filter (\<lambda>b. block_id b \<notin> set newOrder) ?bs'
           = filter (\<lambda>b. block_id b \<notin> set newOrder) (blocks p)"
    unfolding eq by (rule sort_key_stable)
  show ?thesis
    using r m perm ab part stab by (intro exI [of _ ?bs']) simp
qed

theorem drop_reorder_witness:
  "map_option (map block_id) (plan_blocks (js ''p1'')
     (drop_handler [js ''b3'', js ''b1'', js ''b2''] drag_state))
   = Some [js ''b3'', js ''b1'', js ''b2'']"
proof -
  let ?p = "mk_plan ''p1'' ''X'' [mk_block ''b1'' ''one'', mk_block ''b2'' ''two'',
        mk_block ''b3'' ''three'']"
  have a: "draggedBlock drag_state = Some (js ''b1'')" "currentPlanId drag_state = Some (js ''p1'')"
    by (simp_all add: drag_state_def)
  have f: "find_plan (js ''p1'') drag_state = Some ?p"
    by (simp add: find_plan_def drag_state_def mk_state_def mk_plan_def)
  have ids: "map block_id (blocks ?p) = [js ''b1'', js ''b2'', js ''b3'']"
    by (simp add: mk_plan_def mk_block_def)
  have ne: "js ''b1'' \<noteq> js ''b2''" "js ''b1'' \<noteq> js ''b3''" "js ''b2'' \<noteq> js ''b3''"
    by (simp_all add: js_def)
  have d: "distinct (map block_id (blocks ?p))"
    unfolding ids using ne by simp
  have m: "mset [js ''b3'', js ''b1'', js ''b2''] = mset (map block_id (blocks ?p))"
    unfolding ids by (simp add: add_mset_commute)
  show ?thesis
    using drop_reorder [OF a f, of "[js ''b3'', js ''b1'', js ''b2'']"] d m by auto
qed

section \<open>Debounced saving\<close>

lemma autoSave_armed:
  assumes "timers_ok s"
  shows "timers (autoSave s) = [(Suc (timerCount s), clock s + 1000)]"
    and "saveTimeout (autoSave s) = Some (Suc (timerCount s))"
    and "clock (autoSave s) = clock s"
    and "gateway (autoSave s) = gateway s"
proof -
  have e: "filter (\<lambda>t. fst t \<noteq> h) (timers s) = []" if "saveTimeout s = Some h" for h
    using assms that by (auto simp: timers_ok_def list_all_iff filter_empty_conv)
  have n: "timers s = []" if "saveTimeout s = None \<or> saveTimeout s = Some 0"
    using assms that by (cases "timers s") (auto simp: timers_ok_def)
  show "timers (autoSave s) = [(Suc (timerCount s), clock s + 1000)]"
    using e n by (auto simp: autoSave_def setTimeout_def clearTimeout_def Let_def
        split: option.splits)
  show "saveTimeout (autoSave s) = Some (Suc (timerCount s))"
    by (simp add: autoSave_def setTimeout_def clearTimeout_def Let_def split: option.splits)
  show "clock (autoSave s) = clock s"
    by (simp add: autoSave_def setTimeout_def clearTimeout_def Let_def split: option.splits)
  show "gateway (autoSave s) = gateway s"
    by (simp add: autoSave_def setTimeout_def clearTimeout_def Let_def split: option.splits)
qed

lemma updateBlock_existing:
  "exists_block planId blockId s \<Longrightarrow>
   updateBlock planId blockId c s = autoSave (update_plan planId (set_content blockId c) s)"
  by (auto simp: exists_block_def updateBlock_def split: option.splits)

lemma timers_ok_update_plan [simp]: "timers_ok (update_plan planId f s) = timers_ok s"
  by (simp add: timers_ok_def update_plan_def)

lemma updateBlock_armed:
  assumes "timers_ok s" and "exists_block planId blockId s"
  shows "armed (updateBlock planId blockId c s)"
    and "gateway (updateBlock planId blockId c s) = gateway s"
    and "clock (updateBlock planId blockId c s) = clock s"
proof -
  let ?u = "update_plan planId (set_content blockId c) s"
  have ok: "timers_ok ?u" using assms(1) by simp
  have u: "updateBlock planId blockId c s = autoSave ?u"
    using assms(2) by (rule updateBlock_existing)
  show "armed (updateBlock planId blockId c s)"
    unfolding u armed_def using autoSave_armed [OF ok] by simp
  show "gateway (updateBlock planId blockId c s) = gateway s"
    unfolding u using autoSave_armed(4) [OF ok] by (simp add: update_plan_def)
  show "clock (updateBlock planId blockId c s) = clock s"
    unfolding u using autoSave_armed(3) [OF ok] by (simp add: update_plan_def)
qed

lemma elapse_before_due:
  assumes "armed s" and "d < 1000"
  shows "elapse d s = s\<lparr>clock := clock s + int d\<rparr>"
proof -
  from assms(1) obtain h where "timers s = [(h, clock s + 1000)]"
    by (auto simp: armed_def)
  then show ?thesis
    using assms(2) by (simp add: elapse_def)
qed

lemma elapse_fires:
  assumes "armed s" and "1000 \<le> D"
  shows "gateway (elapse D s)
           = gateway s @ [\<lparr>at = clock s + 1000, showStatus = False, collection = plans s\<rparr>]"
    and "timers (elapse D s) = []"
    and "clock (elapse D s) = clock s + int D"
    and "plans (elapse D s) = plans s"
proof -
  from assms(1) obtain h where t: "timers s = [(h, clock s + 1000)]"
    by (auto simp: armed_def)
  let ?s1 = "fire (s\<lparr>clock := max (clock s) (clock s + 1000), timers := remove1 (h, clock s + 1000) (timers s)\<rparr>)"
  have t1: "timers ?s1 = []" using t by (simp add: fire_def savePlans_def)
  have "elapse D s = advance_to (clock s + int D) ?s1"
    using t assms(2) by (simp add: elapse_def)
  also have "\<dots> = ?s1\<lparr>clock := max (clock ?s1) (clock s + int D)\<rparr>"
    using t1 by (subst advance_to.simps) simp
  finally have e: "elapse D s = ?s1\<lparr>clock := max (clock ?s1) (clock s + int D)\<rparr>" .
  show "gateway (elapse D s)
           = gateway s @ [\<lparr>at = clock s + 1000, showStatus = False, collection = plans s\<rparr>]"
    unfolding e by (simp add: fire_def savePlans_def)
  show "timers (elapse D s) = []"
    unfolding e using t by (simp add: fire_def savePlans_def)
  show "clock (elapse D s) = clock s + int D"
    unfolding e using assms(2) by (simp add: fire_def savePlans_def)
  show "plans (elapse D s) = plans s"
    unfolding e by (simp add: fire_def savePlans_def)
qed

lemma armed_timers_ok: "armed s \<Longrightarrow> timers_ok (s\<lparr>clock := t\<rparr>)"
  by (auto simp: armed_def timers_ok_def)

lemma find_update_first_cases:
  assumes "\<And>x. P (f x) = P x"
  shows "find P (update_first Q f xs) = find P xs
       \<or> (\<exists>x. find P xs = Some x \<and> find P (update_first Q f xs) = Some (f x))"
  by (induction xs) (auto simp: assms)

lemma find_block_set_content:
  "(find_block b (set_content b' c p) = None) = (find_block b p = None)"
proof -
  have "find (\<lambda>x. block_id x = b)
          (update_first (\<lambda>x. block_id x = b') (\<lambda>x. x\<lparr>content := c\<rparr>) (blocks p))
        = find (\<lambda>x. block_id x = b) (blocks p)
      \<or> (\<exists>x. find (\<lambda>x. block_id x = b) (blocks p) = Some x
            \<and> find (\<lambda>x. block_id x = b)
                 (update_first (\<lambda>x. block_id x = b') (\<lambda>x. x\<lparr>content := c\<rparr>) (blocks p))
               = Some (x\<lparr>content := c\<rparr>))"
    by (intro find_update_first_cases) simp
  then show ?thesis
    unfolding find_block_def set_content_def by (elim disjE exE conjE) simp_all
qed

lemma exists_block_update_plan:
  "exists_block a b (update_plan a' (set_content b' c) s) = exists_block a b s"
proof -
  have "plan_id (set_content b' c x) = plan_id x" for x
    by (simp add: set_content_def)
  then have "find (\<lambda>p. plan_id p = a) (update_first (\<lambda>p. plan_id p = a') (set_content b' c) (plans s))
        = find (\<lambda>p. plan_id p = a) (plans s)
      \<or> (\<exists>x. find (\<lambda>p. plan_id p = a) (plans s) = Some x
            \<and> find (\<lambda>p. plan_id p = a)
                 (update_first (\<lambda>p. plan_id p = a') (set_content b' c) (plans s))
               = Some (set_content b' c x))"
    by (intro find_update_first_cases) simp
  then show ?thesis
    unfolding exists_block_def find_plan_def update_plan_def
    by (elim disjE exE conjE) (simp_all add: find_block_set_content)
qed

lemma exists_block_frame [simp]:
  "exists_block a b (autoSave s) = exists_block a b s"
  "exists_block a b (s\<lparr>clock := t\<rparr>) = exists_block a b s"
  by (simp_all add: exists_block_def find_plan_def)

lemma exists_block_updateBlock:
  "exists_block a b (updateBlock a' b' c s) = exists_block a b s"
  by (cases "exists_block a' b' s")
    (auto simp: updateBlock_existing exists_block_update_plan,
     auto simp: updateBlock_def exists_block_def split: option.splits)

lemma burst_armed:
  assumes "armed s"
    and "\<forall>x\<in>set cs. fst x < 1000 \<and> exists_block (fst (snd x)) (fst (snd (snd x))) s"
  shows "armed (burst cs s) \<and> gateway (burst cs s) = gateway s"
  using assms
proof (induction cs arbitrary: s)
  case Nil
  then show ?case by simp
next
  case (Cons x cs)
  obtain d planId blockId c where x: "x = (d, planId, blockId, c)"
    by (cases x) auto
  have d: "d < 1000" and ex: "exists_block planId blockId s"
    using Cons.prems(2) x by auto
  let ?e = "s\<lparr>clock := clock s + int d\<rparr>"
  let ?s' = "updateBlock planId blockId c ?e"
  have el: "elapse d s = ?e" using Cons.prems(1) d by (rule elapse_before_due)
  have ok: "timers_ok ?e" using Cons.prems(1) by (rule armed_timers_ok)
  have ex': "exists_block planId blockId ?e" using ex by simp
  have a: "armed ?s'" and g: "gateway ?s' = gateway s"
    using updateBlock_armed [OF ok ex', of c] by simp_all
  have "\<forall>y\<in>set cs. fst y < 1000 \<and> exists_block (fst (snd y)) (fst (snd (snd y))) ?s'"
    using Cons.prems(2) by (simp add: exists_block_updateBlock)
  with a have "armed (burst cs ?s') \<and> gateway (burst cs ?s') = gateway ?s'"
    by (rule Cons.IH)
  then show ?case using x el g by simp
qed

lemma timers_ok_mk_state: "timers_ok (mk_state ps)"
  by (simp add: timers_ok_def mk_state_def)

lemma timers_ok_autoSave: "timers_ok s \<Longrightarrow> timers_ok (autoSave s)"
  using autoSave_armed(1,2) [of s] by (simp add: timers_ok_def)

lemma timers_ok_advance_to: "timers_ok s \<Longrightarrow> timers_ok (advance_to t s)"
proof (induction t s rule: advance_to.induct)
  case (1 t s)
  show ?case
  proof (cases "next_due (timers s)")
    case None
    then show ?thesis
      using "1.prems" by (subst advance_to.simps) (simp add: timers_ok_def)
  next
    case (Some u)
    show ?thesis
    proof (cases "snd u \<le> t")
      case True
      let ?s' = "fire (s\<lparr>clock := max (clock s) (snd u), timers := remove1 u (timers s)\<rparr>)"
      have "set (remove1 u (timers s)) \<subseteq> set (timers s)"
        by (rule set_remove1_subset)
      then have "timers_ok ?s'"
        using "1.prems" by (auto simp: timers_ok_def list_all_iff fire_def savePlans_def)
      then have "timers_ok (advance_to t ?s')"
        using Some True by (intro "1.IH") simp_all
      then show ?thesis
        using Some True by (subst advance_to.simps) simp
    next
      case False
      then show ?thesis
        using Some "1.prems" by (subst advance_to.simps) (simp add: timers_ok_def)
    qed
  qed
qed

text \<open>
  C5. Time is counted in milliseconds and a timer runs when it falls due. Take a state
  in which no timer but the one held in \<open>saveTimeout\<close> is pending, a first call of
  \<open>updateBlock\<close> on an existing block, and then any number of further calls on
  existing blocks, each less than 1000 ms after the one before, with nothing else in
  between. During these calls the storage is not called. When 1000 ms or more have then
  passed, the storage has been called exactly once more: 1000 ms after the last call,
  without status display, with the whole plan collection as the last call left it; no
  timer is left pending.
\<close>

theorem debounce_coalescing:
  assumes "timers_ok s"
    and "exists_block planId blockId s"
    and "\<forall>x\<in>set rest. fst x < 1000 \<and> exists_block (fst (snd x)) (fst (snd (snd x))) s"
    and "1000 \<le> D"
  shows "gateway (burst rest (updateBlock planId blockId c s)) = gateway s
       \<and> gateway (elapse D (burst rest (updateBlock planId blockId c s)))
           = gateway s
             @ [\<lparr>at = clock (burst rest (updateBlock planId blockId c s)) + 1000,
                 showStatus = False,
                 collection = plans (burst rest (updateBlock planId blockId c s))\<rparr>]
       \<and> timers (elapse D (burst rest (updateBlock planId blockId c s))) = []
       \<and> plans (elapse D (burst rest (updateBlock planId blockId c s)))
           = plans (burst rest (updateBlock planId blockId c s))"
proof -
  let ?s1 = "updateBlock planId blockId c s"
  have a1: "armed ?s1" and g1: "gateway ?s1 = gateway s"
    using updateBlock_armed [OF assms(1,2), of c] by simp_all
  have "\<forall>x\<in>set rest. fst x < 1000 \<and> exists_block (fst (snd x)) (fst (snd (snd x))) ?s1"
    using assms(3) by (simp add: exists_block_updateBlock)
  with a1 have b: "armed (burst rest ?s1)" "gateway (burst rest ?s1) = gateway ?s1"
    using burst_armed by blast+
  show ?thesis
    using elapse_fires [OF b(1) assms(4)] b(2) g1 by simp
qed

theorem debounce_coalescing_witness:
  "gateway (elapse 1000
     (burst [(300, js ''p1'', js ''b1'', js ''abc''), (999, js ''p1'', js ''b1'', js ''abcd'')]
        (updateBlock (js ''p1'') (js ''b1'') (js ''ab'')
           (mk_state [mk_plan ''p1'' ''X'' [mk_block ''b1'' ''a'']]))))
   = [\<lparr>at = 1700000002299, showStatus = False,
       collection = [mk_plan ''p1'' ''X'' [mk_block ''b1'' ''abcd'']]\<rparr>]"
proof -
  let ?s = "mk_state [mk_plan ''p1'' ''X'' [mk_block ''b1'' ''a'']]"
  let ?rest = "[(300::nat, js ''p1'', js ''b1'', js ''abc''), (999, js ''p1'', js ''b1'', js ''abcd'')]"
  have ok: "timers_ok ?s" by (rule timers_ok_mk_state)
  have ex: "exists_block (js ''p1'') (js ''b1'') ?s"
    by code_simp
  have r: "\<forall>x\<in>set ?rest. fst x < 1000 \<and> exists_block (fst (snd x)) (fst (snd (snd x))) ?s"
    using ex by simp
  have D: "(1000::nat) \<le> 1000" by simp
  have c: "clock (burst ?rest (updateBlock (js ''p1'') (js ''b1'') (js ''ab'') ?s)) = 1700000001299"
    by code_simp
  have p: "plans (burst ?rest (updateBlock (js ''p1'') (js ''b1'') (js ''ab'') ?s))
             = [mk_plan ''p1'' ''X'' [mk_block ''b1'' ''abcd'']]"
    by code_simp
  have g: "gateway ?s = []" by (simp add: mk_state_def)
  show ?thesis
    using debounce_coalescing [OF ok ex r D, of "js ''ab''"] unfolding c p g by simp
qed

section \<open>Markdown import: the fallback block\<close>

lemma scan_line_no_heading:
  "\<not> startsWith l (js ''## Block'') \<Longrightarrow> scan_line now i l (bs, None, inB) = (bs, None, inB)
     \<or> scan_line now i l (bs, None, inB) = (bs, None, False)"
  by (simp add: scan_line_def Let_def)

lemma scan_lines_no_heading:
  "\<forall>l\<in>set ls. \<not> startsWith l (js ''## Block'') \<Longrightarrow>
   \<exists>inB'. scan_lines now i ls (bs, None, inB) = (bs, None, inB')"
proof (induction ls arbitrary: i inB)
  case Nil
  then show ?case by simp
next
  case (Cons l ls)
  then have "scan_line now i l (bs, None, inB) = (bs, None, inB)
     \<or> scan_line now i l (bs, None, inB) = (bs, None, False)"
    by (intro scan_line_no_heading) simp
  then show ?case using Cons by auto
qed

text \<open>
  C8. When the scan of the lines pushes no block, \<open>parseMarkdownToPlan\<close> returns a
  plan whose only block holds the whole input text, not done and not collapsed;
  otherwise the plan has the scanned blocks. No block is pushed, in particular, when no
  line after the first starts with \<open>## Block\<close>.
\<close>

theorem parse_fallback_block:
  "(scanned_blocks now txt = [] \<longrightarrow>
      map_option blocks (parseMarkdownToPlan txt fileName now)
        = Some [\<lparr>block_id = toString now, content = txt, done_flag = False, collapsed = False\<rparr>])
   \<and> (scanned_blocks now txt \<noteq> [] \<longrightarrow>
      map_option blocks (parseMarkdownToPlan txt fileName now) = Some (scanned_blocks now txt))
   \<and> ((\<forall>l\<in>set (tl (split_on LF txt)). \<not> startsWith l (js ''## Block'')) \<longrightarrow>
        scanned_blocks now txt = [])"
proof -
  have "scanned_blocks now txt = []"
    if h: "\<forall>l\<in>set (tl (split_on LF txt)). \<not> startsWith l (js ''## Block'')"
  proof -
    obtain inB' where "scan_lines now 1 (tl (split_on LF txt)) ([], None, False) = ([], None, inB')"
      using scan_lines_no_heading [OF h] by blast
    then show ?thesis by (simp add: scanned_blocks_def flush_def)
  qed
  then show ?thesis
    by (simp add: parseMarkdownToPlan_def Let_def)
qed

theorem parse_fallback_block_witness:
  "scanned_blocks 42 (js ''T'' @ [LF] @ js ''## Block 1'' @ [LF] @ js '' '' @ [LF] @ js ''---'') = []
   \<and> map_option blocks (parseMarkdownToPlan
         (js ''T'' @ [LF] @ js ''## Block 1'' @ [LF] @ js '' '' @ [LF] @ js ''---'')
         (js ''f.md'') 42)
       = Some [\<lparr>block_id = toString 42,
                 content = js ''T'' @ [LF] @ js ''## Block 1'' @ [LF] @ js '' '' @ [LF] @ js ''---'',
                 done_flag = False, collapsed = False\<rparr>]"
proof -
  let ?t = "js ''T'' @ [LF] @ js ''## Block 1'' @ [LF] @ js '' '' @ [LF] @ js ''---''"
  have z: "scanned_blocks 42 ?t = []"
    by code_simp
  show ?thesis
    using parse_fallback_block [of 42 ?t "js ''f.md''"] z by simp
qed

section \<open>Export and import\<close>

subsection \<open>Strike markers\<close>

lemma tilde_not_space: "\<not> is_space (0x7E :: jschar)"
  by (simp add: is_space_def)

lemma js_tildes: "js ''~~'' = [0x7E, 0x7E]"
  by (simp add: js_def)

lemma drop_tildes: "drop 2 (js ''~~'' @ s) = s"
  by (simp add: js_def)

lemma take_tildes: "take (length s) (s @ js ''~~'') = s" "length (js ''~~'') = 2"
  by (simp_all add: js_def)

lemma strip_strike_plain:
  "\<not> startsWith l (js ''~~'') \<Longrightarrow> \<not> endsWith l (js ''~~'') \<Longrightarrow> strip_strike l = l"
  by (simp add: strip_strike_def Let_def)

lemma strip_strike_both: "strip_strike (js ''~~'' @ l @ js ''~~'') = l"
proof -
  have sw: "startsWith (js ''~~'' @ l @ js ''~~'') (js ''~~'')" by simp
  have dr: "drop 2 (js ''~~'' @ l @ js ''~~'') = l @ js ''~~''" by (rule drop_tildes)
  have ew: "endsWith (l @ js ''~~'') (js ''~~'')" by simp
  have tk: "take (length (l @ js ''~~'') - 2) (l @ js ''~~'') = l" by (simp add: take_tildes)
  show ?thesis
    unfolding strip_strike_def Let_def by (simp only: sw dr ew tk if_True)
qed

lemma strip_strike_lead:
  assumes "\<not> endsWith l (js ''~~'')"
  shows "strip_strike (js ''~~'' @ l) = l"
proof -
  have sw: "startsWith (js ''~~'' @ l) (js ''~~'')" by simp
  have dr: "drop 2 (js ''~~'' @ l) = l" by (rule drop_tildes)
  show ?thesis
    unfolding strip_strike_def Let_def by (simp only: sw dr assms if_True if_False)
qed

lemma strip_strike_trail:
  assumes "\<not> startsWith l (js ''~~'')"
  shows "strip_strike (l @ js ''~~'') = l"
proof (cases "startsWith (l @ js ''~~'') (js ''~~'')")
  case True
  have "length l \<le> 1"
  proof (rule ccontr)
    assume "\<not> length l \<le> 1"
    then have "2 \<le> length l" by simp
    then have "take 2 (l @ js ''~~'') = take 2 l" by simp
    then show False using True assms by (simp add: startsWith_def js_tildes)
  qed
  then have "l = [] \<or> (\<exists>c. l = [c])"
    by (cases l) auto
  then show ?thesis
  proof
    assume "l = []"
    then show ?thesis
      by (simp add: strip_strike_def Let_def js_tildes startsWith_def endsWith_def)
  next
    assume "\<exists>c. l = [c]"
    then obtain c where l: "l = [c]" by blast
    then have "c = 0x7E" using True by (simp add: startsWith_def js_tildes)
    then show ?thesis
      using l by (simp add: strip_strike_def Let_def js_tildes startsWith_def endsWith_def)
  qed
next
  case False
  have ew: "endsWith (l @ js ''~~'') (js ''~~'')" by simp
  have tk: "take (length (l @ js ''~~'') - 2) (l @ js ''~~'') = l" by (simp add: take_tildes)
  show ?thesis
    unfolding strip_strike_def Let_def by (simp only: False ew tk if_True if_False)
qed

lemma startsWith_append_cases:
  assumes "startsWith (a @ q) p"
  shows "startsWith a p \<or> (\<exists>x\<in>set q. x \<in> set p)"
proof (cases "length p \<le> length a")
  case True
  then show ?thesis using assms by (simp add: startsWith_def)
next
  case False
  then have n: "0 < length p - length a" by simp
  have "take (length p) (a @ q) = p"
    using assms by (simp add: startsWith_def)
  then have p: "p = a @ take (length p - length a) q"
    using False by simp
  have "take (length p - length a) q \<noteq> []"
  proof
    assume "take (length p - length a) q = []"
    then have "p = a" using p by (metis append_Nil2)
    then show False using False by simp
  qed
  then obtain x where x: "x \<in> set (take (length p - length a) q)"
    by (cases "take (length p - length a) q") auto
  then have "x \<in> set q" by (rule in_set_takeD)
  moreover have "x \<in> set p" using p x by (metis Un_iff set_append)
  ultimately show ?thesis by blast
qed

lemma tilde_notin_heading: "(0x7E :: jschar) \<notin> set (js ''## Block'')"
  by (simp add: js_def)

lemma tilde_notin_sep: "(0x7E :: jschar) \<notin> set (js ''---'')"
  by (simp add: js_def)

lemma clean_plain: "round_trip_line False False l \<Longrightarrow> trim (strip_strike l) = trim l"
  by (simp add: round_trip_line_def strip_strike_plain)

lemma content_line_plain: "round_trip_line False False l \<Longrightarrow> content_line l"
  by (simp add: round_trip_line_def content_line_def strip_strike_plain)

lemma marked_nonblank: "trim (js ''~~'' @ s) \<noteq> []" "trim (s @ js ''~~'') \<noteq> []"
  using tilde_not_space by (auto simp: trim_nonempty js_tildes)

lemma content_line_struck:
  shows "round_trip_line True True l \<Longrightarrow> content_line (js ''~~'' @ l @ js ''~~'')"
    and "round_trip_line True False l \<Longrightarrow> content_line (js ''~~'' @ l)"
    and "round_trip_line False True l \<Longrightarrow> content_line (l @ js ''~~'')"
proof -
  have h: "\<not> startsWith (js ''~~'' @ s) (js ''## Block'')" for s
    by (simp add: js_def startsWith_def)
  have s: "js ''~~'' @ s \<noteq> js ''---''" "s @ js ''~~'' \<noteq> js ''---''" for s
    using tilde_notin_sep by (metis Un_iff js_tildes list.set_intros(1) set_append)+
  show "round_trip_line True True l \<Longrightarrow> content_line (js ''~~'' @ l @ js ''~~'')"
    using h s(1) by (simp add: content_line_def strip_strike_both round_trip_line_def)
  show "round_trip_line True False l \<Longrightarrow> content_line (js ''~~'' @ l)"
    using h s(1) by (simp add: content_line_def strip_strike_lead round_trip_line_def)
  show "content_line (l @ js ''~~'')" if a: "round_trip_line False True l"
  proof -
    have "\<not> startsWith (l @ js ''~~'') (js ''## Block'')"
    proof
      assume "startsWith (l @ js ''~~'') (js ''## Block'')"
      then have "startsWith l (js ''## Block'')
          \<or> (\<exists>x\<in>set (js ''~~''). x \<in> set (js ''## Block''))"
        by (rule startsWith_append_cases)
      then show False
        using a tilde_notin_heading by (auto simp: round_trip_line_def js_tildes)
    qed
    then show ?thesis
      using a s(2) by (simp add: content_line_def strip_strike_trail round_trip_line_def)
  qed
qed

subsection \<open>Numbers\<close>

lemma digits_chars:
  "0 \<le> n \<Longrightarrow> \<forall>c\<in>set (digits n). c \<noteq> LF \<and> c \<noteq> 0x28"
proof (induction n rule: digits.induct)
  case (1 n)
  have d: "(word_of_int (48 + k) :: jschar) \<noteq> LF \<and> (word_of_int (48 + k) :: jschar) \<noteq> 0x28"
    if "0 \<le> k" "k < 10" for k :: int
  proof -
    have "k = 0 \<or> k = 1 \<or> k = 2 \<or> k = 3 \<or> k = 4 \<or> k = 5 \<or> k = 6 \<or> k = 7 \<or> k = 8 \<or> k = 9"
      using that by arith
    then show ?thesis by (auto simp: LF_def)
  qed
  show ?case
  proof (cases "n < 10")
    case True
    then show ?thesis using d [of n] "1.prems" by (subst digits.simps) simp
  next
    case False
    then have ih: "\<forall>c\<in>set (digits (n div 10)). c \<noteq> LF \<and> c \<noteq> 0x28"
      using "1.IH" "1.prems" by simp
    have "0 \<le> n mod 10" "n mod 10 < 10" by simp_all
    then have "(word_of_int (48 + n mod 10) :: jschar) \<noteq> LF
        \<and> (word_of_int (48 + n mod 10) :: jschar) \<noteq> 0x28"
      by (rule d)
    then show ?thesis using False ih by (subst digits.simps) simp
  qed
qed

lemma toString_chars: "0 \<le> n \<Longrightarrow> LF \<notin> set (toString n) \<and> 0x28 \<notin> set (toString n)"
  using digits_chars [of n] by (auto simp: toString_def)

subsection \<open>Scanning\<close>

lemma scan_lines_append:
  "scan_lines now i (xs @ ys) st = scan_lines now (i + length xs) ys (scan_lines now i xs st)"
  by (induction xs arbitrary: i st) simp_all

lemma scan_blank: "scan_line now i [] st = st"
  by (cases st) (simp add: scan_line_def startsWith_def js_def trim_def)

lemma scan_sep: "scan_line now i (js ''---'') (A, cur, inB) = (A, cur, False)"
  by (simp add: scan_line_def startsWith_def js_def)

lemma append_lines_join: "c \<noteq> [] \<Longrightarrow> append_lines c xs = join_lines (c # xs)"
proof (induction xs arbitrary: c)
  case Nil
  then show ?case by simp
next
  case (Cons x xs)
  have "append_lines c (x # xs) = join_lines ((c @ LF # x) # xs)"
    using Cons by simp
  also have "\<dots> = join_lines (c # x # xs)"
    by (cases xs) simp_all
  finally show ?case .
qed

lemma append_lines_nonempty: "\<forall>x\<in>set xs. x \<noteq> [] \<Longrightarrow> append_lines [] xs = join_lines xs"
  by (cases xs) (simp_all add: append_lines_join)

lemma append_lines_snoc:
  "append_lines c (xs @ [x])
     = append_lines c xs @ (if append_lines c xs \<noteq> [] then [LF] else []) @ x"
  by (induction xs arbitrary: c) simp_all

lemma append_lines_lead:
  "\<forall>x\<in>set xs. x \<noteq> [] \<Longrightarrow>
   append_lines [] (y # xs) = join_lines ((if y \<noteq> [] then [y] else []) @ xs)"
  using append_lines_nonempty [of xs] append_lines_nonempty [of "y # xs"] by auto

lemma join_lines_add:
  assumes "\<forall>x\<in>set F. x \<noteq> []"
  shows "join_lines F @ (if join_lines F \<noteq> [] then [LF] else []) @ x = join_lines (F @ [x])"
proof (cases "F = []")
  case True
  then show ?thesis by simp
next
  case False
  then have "hd F \<noteq> []" using assms by simp
  then have "join_lines F \<noteq> []" using False by (intro join_lines_nonempty)
  then show ?thesis using False by (simp add: join_lines_snoc)
qed

text \<open>The scan inside a block: blank lines are passed over, the others are appended.\<close>

lemma scan_body:
  "list_all content_line es \<Longrightarrow>
   scan_lines now i es (A, Some nb, True)
     = (A, Some (nb\<lparr>content := append_lines (content nb)
                    (map (\<lambda>e. trim (strip_strike e)) (filter (\<lambda>e. trim e \<noteq> []) es))\<rparr>),
        True)"
proof (induction es arbitrary: i nb)
  case Nil
  then show ?case by simp
next
  case (Cons e es)
  show ?case
  proof (cases "trim e = []")
    case True
    then have "scan_line now i e (A, Some nb, True) = (A, Some nb, True)"
      using Cons.prems by (simp add: scan_line_def content_line_def Let_def)
    then show ?thesis using Cons True by simp
  next
    case False
    then have "scan_line now i e (A, Some nb, True)
          = (A, Some (nb\<lparr>content := content nb @ (if content nb \<noteq> [] then [LF] else [])
                 @ trim (strip_strike e)\<rparr>), True)"
      using Cons.prems by (simp add: scan_line_def content_line_def Let_def)
    then show ?thesis using Cons False by simp
  qed
qed

lemma trimR_prefix: "\<exists>w. s = trimR s @ w"
proof -
  have "rev s = takeWhile is_space (rev s) @ dropWhile is_space (rev s)" by simp
  then have "s = rev (dropWhile is_space (rev s)) @ rev (takeWhile is_space (rev s))"
    by (metis rev_append rev_rev_ident)
  then show ?thesis unfolding trimR_def by blast
qed

lemma trim_ends:
  assumes "trim s \<noteq> []"
  shows "\<not> is_space (hd (trim s))" and "\<not> is_space (last (trim s))"
proof -
  let ?x = "trimL s"
  let ?y = "trimR ?x"
  have y: "?y \<noteq> []" using assms by (simp add: trim_LR)
  obtain w where w: "?x = ?y @ w" using trimR_prefix by blast
  have "?x \<noteq> []" using y w by auto
  then have "\<not> is_space (hd ?x)" unfolding trimL_def by (rule hd_dropWhile)
  then have h: "\<not> is_space (hd ?y)" using w y by (metis hd_append2)
  have "dropWhile is_space (rev ?x) \<noteq> []" using y by (simp add: trimR_def)
  then have "\<not> is_space (hd (dropWhile is_space (rev ?x)))" by (rule hd_dropWhile)
  then have l: "\<not> is_space (last ?y)" using y by (simp add: trimR_def last_rev)
  show "\<not> is_space (hd (trim s))" using h by (simp add: trim_LR)
  show "\<not> is_space (last (trim s))" using l by (simp add: trim_LR)
qed

lemma trim_idem: "trim (trim s) = trim s"
proof (cases "trim s = []")
  case True
  then show ?thesis by simp
next
  case False
  then show ?thesis using trim_ends [of s] by (intro trim_mid_line) simp_all
qed

subsection \<open>Contents up to white space\<close>

lemma clean_nonempty:
  assumes "trim c \<noteq> []"
  shows "filter (\<lambda>l. trim l \<noteq> []) (split_on LF c) \<noteq> []"
proof -
  obtain x where x: "x \<in> set c" "\<not> is_space x"
    using assms by (auto simp: trim_nonempty)
  then have "x \<in> set (join_lines (split_on LF c))" by (simp add: join_split_on)
  moreover have "x \<noteq> LF" using x(2) by auto
  ultimately obtain l where l: "l \<in> set (split_on LF c)" "x \<in> set l"
    using set_join_lines by blast
  then have "trim l \<noteq> []" using x(2) by (auto simp: trim_nonempty)
  then have "l \<in> set (filter (\<lambda>l. trim l \<noteq> []) (split_on LF c))" using l(1) by simp
  then show ?thesis by (metis empty_iff empty_set)
qed

lemma clean_trimmed: "trim (clean_content c) = clean_content c"
proof -
  define F where "F = map trim (filter (\<lambda>l. trim l \<noteq> []) (split_on LF c))"
  have e: "\<forall>x\<in>set F. x \<noteq> [] \<and> \<not> is_space (hd x) \<and> \<not> is_space (last x)"
    unfolding F_def using trim_ends by auto
  show ?thesis
  proof (cases "F = []")
    case True
    then show ?thesis by (simp add: clean_content_def F_def [symmetric])
  next
    case False
    then have "hd F \<in> set F" "last F \<in> set F" by simp_all
    then have h: "hd F \<noteq> []" "\<not> is_space (hd (hd F))"
      and l: "last F \<noteq> []" "\<not> is_space (last (last F))"
      using e by blast+
    have "\<not> is_space (hd (join_lines F))" "\<not> is_space (last (join_lines F))"
      using False h l by (simp_all add: hd_join_lines last_join_lines)
    then have "trim (join_lines F) = join_lines F" by (intro trim_mid_line) simp_all
    then show ?thesis by (simp add: clean_content_def F_def [symmetric])
  qed
qed

lemma trim_imported: "trim (imported_content d c) = clean_content c"
  by (simp add: imported_content_def trim_snoc_space clean_trimmed)

lemma clean_content_nonempty: "trim c \<noteq> [] \<Longrightarrow> clean_content c \<noteq> []"
proof -
  assume "trim c \<noteq> []"
  then have n: "filter (\<lambda>l. trim l \<noteq> []) (split_on LF c) \<noteq> []" by (rule clean_nonempty)
  define N where "N = filter (\<lambda>l. trim l \<noteq> []) (split_on LF c)"
  have ne: "N \<noteq> []" using n unfolding N_def .
  then have "hd N \<in> set N" by simp
  then have "trim (hd N) \<noteq> []" unfolding N_def by simp
  then have "hd (map trim N) \<noteq> []" using ne by (simp add: hd_map)
  then have "join_lines (map trim N) \<noteq> []"
    using ne by (intro join_lines_nonempty) simp_all
  then show ?thesis by (simp add: clean_content_def N_def)
qed

text \<open>White space around a content does not count.\<close>

lemma clean_space_Cons: "is_space x \<Longrightarrow> clean_content (x # s) = clean_content s"
proof (cases "x = LF")
  case True
  then show ?thesis by (simp add: clean_content_def)
next
  case False
  assume sp: "is_space x"
  obtain l ls where s: "split_on LF s = l # ls"
    using split_on_nonempty [of LF s] by (cases "split_on LF s") auto
  show ?thesis
    using False s sp by (simp add: clean_content_def trim_Cons_space)
qed

lemma clean_space_snoc: "is_space x \<Longrightarrow> clean_content (s @ [x]) = clean_content s"
proof (cases "x = LF")
  case True
  have "split_on LF (s @ LF # []) = split_on LF s @ split_on LF []"
    by (rule split_on_append)
  then show ?thesis using True by (simp add: clean_content_def)
next
  case False
  assume sp: "is_space x"
  let ?L = "split_on LF s"
  have ne: "?L \<noteq> []" by (rule split_on_nonempty)
  have a: "split_on LF (s @ [x]) = butlast ?L @ [last ?L @ [x]]"
    using False by (intro split_on_suffix) simp
  have b: "?L = butlast ?L @ [last ?L]"
    using ne by simp
  have "map trim (filter (\<lambda>l. trim l \<noteq> []) (butlast ?L @ [last ?L @ [x]]))
          = map trim (filter (\<lambda>l. trim l \<noteq> []) (butlast ?L @ [last ?L]))"
    using sp by (simp add: trim_snoc_space)
  then show ?thesis
    unfolding clean_content_def a using b by simp
qed

lemma clean_pad_left: "\<forall>x\<in>set w. is_space x \<Longrightarrow> clean_content (w @ t) = clean_content t"
  by (induction w) (simp_all add: clean_space_Cons)

lemma clean_pad_right: "\<forall>x\<in>set w. is_space x \<Longrightarrow> clean_content (t @ w) = clean_content t"
proof (induction w rule: rev_induct)
  case Nil
  then show ?case by simp
next
  case (snoc x w)
  have "clean_content ((t @ w) @ [x]) = clean_content (t @ w)"
    using snoc.prems by (intro clean_space_snoc) simp
  then show ?case using snoc by simp
qed

lemma trim_decomp:
  "\<exists>w1 w2. c = w1 @ trim c @ w2 \<and> (\<forall>x\<in>set w1. is_space x) \<and> (\<forall>x\<in>set w2. is_space x)"
proof -
  let ?w1 = "takeWhile is_space c"
  let ?w2 = "rev (takeWhile is_space (rev (trimL c)))"
  have "rev (trimL c) = takeWhile is_space (rev (trimL c)) @ dropWhile is_space (rev (trimL c))"
    by simp
  then have "trimL c = rev (dropWhile is_space (rev (trimL c))) @ ?w2"
    by (metis rev_append rev_rev_ident)
  then have "trimL c = trim c @ ?w2"
    by (simp add: trim_LR trimR_def)
  moreover have "c = ?w1 @ trimL c"
    by (simp add: trimL_def)
  ultimately have "c = ?w1 @ trim c @ ?w2" by simp
  moreover have "\<forall>x\<in>set ?w1. is_space x" "\<forall>x\<in>set ?w2. is_space x"
    by (auto dest: set_takeWhileD)
  ultimately show ?thesis by blast
qed

lemma clean_trim: "clean_content (trim c) = clean_content c"
proof -
  obtain w1 w2 where "c = w1 @ trim c @ w2" "\<forall>x\<in>set w1. is_space x" "\<forall>x\<in>set w2. is_space x"
    using trim_decomp by blast
  then show ?thesis
    using clean_pad_left [of w1 "trim c @ w2"] clean_pad_right [of w2 "trim c"] by simp
qed

lemma tight_nonblank:
  "tight_lines ls \<Longrightarrow> (\<forall>l. ls = [l] \<longrightarrow> trim l \<noteq> []) \<Longrightarrow> \<forall>l\<in>set ls. \<exists>x\<in>set l. \<not> is_space x"
proof (induction ls rule: tight_lines.induct)
  case (1 l l' ls)
  have "last l \<in> set l" "\<not> is_space (last l)" using "1.prems" by simp_all
  then have a: "\<exists>x\<in>set l. \<not> is_space x" by blast
  have "hd l' \<in> set l'" "\<not> is_space (hd l')" using "1.prems" by simp_all
  then have "trim l' \<noteq> []" by (auto simp: trim_nonempty)
  then have "\<forall>l\<in>set (l' # ls). \<exists>x\<in>set l. \<not> is_space x"
    using "1.prems" by (intro "1.IH") auto
  then show ?case using a by simp
next
  case (2 l)
  then show ?case by (simp add: trim_nonempty)
next
  case 3
  then show ?case by simp
qed

text \<open>
  When no line break of the trimmed content has white space next to it, the content up
  to white space is the trimmed content.
\<close>

lemma clean_tight:
  assumes "trim c \<noteq> []" and "tight_lines (split_on LF (trim c))"
  shows "clean_content c = trim c"
proof -
  let ?L = "split_on LF (trim c)"
  have ne: "?L \<noteq> []" by (rule split_on_nonempty)
  have "\<forall>l. ?L = [l] \<longrightarrow> trim l \<noteq> []"
  proof (intro allI impI)
    fix l
    assume "?L = [l]"
    then have "l = trim c" using join_split_on [of "trim c"] by simp
    then show "trim l \<noteq> []" using assms(1) by (simp add: trim_idem)
  qed
  then have nb: "\<forall>l\<in>set ?L. \<exists>x\<in>set l. \<not> is_space x"
    using assms(2) by (intro tight_nonblank)
  then have "filter (\<lambda>l. trim l \<noteq> []) ?L = ?L"
    by (simp add: trim_nonempty)
  then have "clean_content (trim c) = join_lines (map trim ?L)"
    by (simp add: clean_content_def)
  also have "\<dots> = trim (join_lines ?L)"
    using ne nb assms(2) by (rule trim_join [symmetric])
  also have "\<dots> = trim c"
    by (simp add: join_split_on trim_idem)
  finally show ?thesis by (simp add: clean_trim)
qed

subsection \<open>The lines of an exported block\<close>

lemma LF_notin [simp]:
  "LF \<notin> set (js ''~~'')" "LF \<notin> set (js ''---'')" "LF \<notin> set (js ''## Block '')"
  "LF \<notin> set (js '' '')" "LF \<notin> set (js ''(Completed)'')" "LF \<notin> set (js ''# '')"
  "LF \<notin> set (js ''*Created: '')" "LF \<notin> set (js ''*'')" "LF \<notin> set (js ''*Blocks: '')"
  "LF \<notin> set (js '' ('')" "LF \<notin> set (js '' active)*'')"
  by (simp_all add: js_def LF_def)

lemma struck_lines:
  "split_on LF (js ''~~'' @ c @ js ''~~'')
     = (case split_on LF c of
          [] \<Rightarrow> []
        | [l] \<Rightarrow> [js ''~~'' @ l @ js ''~~'']
        | l # l' # r \<Rightarrow> (js ''~~'' @ l) # butlast (l' # r) @ [last (l' # r) @ js ''~~''])"
proof -
  let ?X = "split_on LF (c @ js ''~~'')"
  have X: "?X = butlast (split_on LF c) @ [last (split_on LF c) @ js ''~~'']"
    by (rule split_on_suffix) simp
  have "split_on LF (js ''~~'' @ c @ js ''~~'') = (js ''~~'' @ hd ?X) # tl ?X"
    by (rule split_on_prefix) simp
  then show ?thesis
    unfolding X using split_on_nonempty [of LF c]
    by (auto split: list.splits)
qed

lemma round_trip_plain:
  assumes "round_trip_content False c"
  shows "list_all (round_trip_line False False) (split_on LF c)"
proof (cases "split_on LF c" rule: join_lines.cases)
  case 1
  then show ?thesis by simp
next
  case (2 l)
  then show ?thesis using assms by (simp add: round_trip_content_def)
next
  case (3 l l' r)
  have lr: "l' # r = butlast (l' # r) @ [last (l' # r)]"
    by (rule append_butlast_last_id [symmetric]) simp
  have "round_trip_line False False l"
      "list_all (round_trip_line False False) (butlast (l' # r))"
      "round_trip_line False False (last (l' # r))"
    using assms 3 by (simp_all add: round_trip_content_def)
  then have "list_all (round_trip_line False False) (l # butlast (l' # r) @ [last (l' # r)])"
    by simp
  then show ?thesis using 3 lr by simp
qed

text \<open>
  The lines of the content of a block in the document, with the strike markers of a done
  block, and what the scan makes of them.
\<close>

lemma exported_lines:
  assumes "round_trip_content d c"
  shows "list_all content_line (split_on LF ((if d then js ''~~'' else []) @ c
            @ (if d then js ''~~'' else [])))"
    and "append_lines [] (map (\<lambda>e. trim (strip_strike e)) (filter (\<lambda>e. trim e \<noteq> [])
            (split_on LF ((if d then js ''~~'' else []) @ c @ (if d then js ''~~'' else [])))))
          = imported_content d c"
proof -
  let ?nb = "\<lambda>e::jsstring. trim e \<noteq> []"
  let ?cl = "\<lambda>e. trim (strip_strike e)"
  let ?E = "split_on LF ((if d then js ''~~'' else []) @ c @ (if d then js ''~~'' else []))"
  have tc: "trim c \<noteq> []" using assms by (simp add: round_trip_content_def)
  have "list_all content_line ?E \<and> append_lines [] (map ?cl (filter ?nb ?E)) = imported_content d c"
  proof (cases d)
    case False
    have all: "\<forall>l\<in>set (split_on LF c). round_trip_line False False l"
      using round_trip_plain assms False by (simp add: list_all_iff)
    have m: "map ?cl (filter ?nb (split_on LF c)) = map trim (filter ?nb (split_on LF c))"
      using all by (intro map_cong) (simp_all add: clean_plain)
    have a: "append_lines [] (map trim (filter ?nb (split_on LF c)))
               = join_lines (map trim (filter ?nb (split_on LF c)))"
      by (intro append_lines_nonempty) auto
    have r: "append_lines [] (map ?cl (filter ?nb (split_on LF c))) = imported_content d c"
      unfolding m a using False by (simp add: imported_content_def clean_content_def)
    have ok: "list_all content_line (split_on LF c)"
      using all by (simp add: list_all_iff content_line_plain)
    show ?thesis
      using False ok r by simp
  next
    case True
    show ?thesis
    proof (cases "split_on LF c" rule: join_lines.cases)
      case 1
      then show ?thesis using split_on_nonempty [of LF c] by simp
    next
      case (2 l)
      then have rl: "round_trip_line True True l"
        using assms True by (simp add: round_trip_content_def)
      have "c = l" using 2 join_split_on [of c] by simp
      then have tl: "trim l \<noteq> []" using tc by simp
      show ?thesis
        using True 2 tl content_line_struck(1) [OF rl] marked_nonblank(1) [of "l @ js ''~~''"]
        by (simp add: struck_lines strip_strike_both imported_content_def clean_content_def)
    next
      case (3 l l' r)
      let ?m = "butlast (l' # r)" and ?z = "last (l' # r)"
      have lr: "l' # r = ?m @ [?z]" by (rule append_butlast_last_id [symmetric]) simp
      have L: "split_on LF c = l # ?m @ [?z]" using 3 lr by simp
      have all: "round_trip_line True False l" "\<forall>x\<in>set ?m. round_trip_line False False x"
          "round_trip_line False True ?z"
        using assms 3 True by (simp_all add: round_trip_content_def list_all_iff)
      have E: "?E = (js ''~~'' @ l) # ?m @ [?z @ js ''~~'']"
        using True 3 by (simp add: struck_lines del: butlast.simps last.simps)
      have ok: "list_all content_line ?E"
        unfolding E using all content_line_struck(2) [of l] content_line_struck(3) [of ?z]
        by (simp add: list_all_iff content_line_plain)
      have c1: "trim (strip_strike (js ''~~'' @ l)) = trim l"
        using all(1) by (simp add: strip_strike_lead round_trip_line_def)
      have c2: "map ?cl (filter ?nb ?m) = map trim (filter ?nb ?m)"
        using all(2) by (intro map_cong) (simp_all add: clean_plain)
      have c3: "trim (strip_strike (?z @ js ''~~'')) = trim ?z"
        using all(3) by (simp add: strip_strike_trail round_trip_line_def)
      define X where "X = map trim (filter ?nb ?m)"
      define F where "F = (if trim l \<noteq> [] then [trim l] else []) @ X"
      have Xne: "\<forall>x\<in>set X. x \<noteq> []" unfolding X_def by auto
      then have Fne: "\<forall>x\<in>set F. x \<noteq> []" unfolding F_def by auto
      have F: "F = map trim (filter ?nb (l # ?m))"
        unfolding F_def X_def by simp
      have "filter ?nb ?E = (js ''~~'' @ l) # filter ?nb ?m @ [?z @ js ''~~'']"
        unfolding E using marked_nonblank by simp
      then have "map ?cl (filter ?nb ?E) = (trim l # X) @ [trim ?z]"
        using c1 c2 c3 unfolding X_def by simp
      then have "append_lines [] (map ?cl (filter ?nb ?E))
          = append_lines [] (trim l # X)
              @ (if append_lines [] (trim l # X) \<noteq> [] then [LF] else []) @ trim ?z"
        by (simp only: append_lines_snoc)
      also have "append_lines [] (trim l # X) = join_lines F"
        unfolding F_def using Xne by (rule append_lines_lead)
      also have "join_lines F @ (if join_lines F \<noteq> [] then [LF] else []) @ trim ?z
                   = join_lines (F @ [trim ?z])"
        using Fne by (rule join_lines_add)
      finally have r: "append_lines [] (map ?cl (filter ?nb ?E)) = join_lines (F @ [trim ?z])" .
      have "join_lines (F @ [trim ?z]) = imported_content d c"
      proof (cases "trim ?z = []")
        case z: True
        then have cc: "map trim (filter ?nb (split_on LF c)) = F"
          unfolding L F by simp
        then have "F \<noteq> []" using clean_nonempty [OF tc] by auto
        then have "join_lines (F @ [[]]) = join_lines F @ [LF]"
          by (simp add: join_lines_snoc)
        then show ?thesis
          using z True cc 3 by (simp add: imported_content_def clean_content_def)
      next
        case z: False
        then have "map trim (filter ?nb (split_on LF c)) = F @ [trim ?z]"
          unfolding L F by simp
        then show ?thesis
          using z 3 by (simp add: imported_content_def clean_content_def)
      qed
      then show ?thesis using ok r by simp
    qed
  qed
  then show "list_all content_line ?E"
    and "append_lines [] (map ?cl (filter ?nb ?E)) = imported_content d c"
    by simp_all
qed

lemma split_on_LF_Cons: "split_on LF (LF # r) = [] # split_on LF r"
  by simp

lemma heading_no_LF:
  "LF \<notin> set (js ''## Block '' @ toString (int k + 1) @ js '' ''
            @ (if d then js ''(Completed)'' else []))"
  using toString_chars [of "int k + 1"] by simp

lemma block_lines:
  assumes "content b \<noteq> []"
  shows "split_on LF (block_markdown k b @ rest)
     = [js ''## Block '' @ toString (int k + 1) @ js '' ''
          @ (if done_flag b then js ''(Completed)'' else []), []]
       @ split_on LF ((if done_flag b then js ''~~'' else []) @ content b
            @ (if done_flag b then js ''~~'' else []))
       @ [[], js ''---'', []] @ split_on LF rest"
proof -
  define h where "h = js ''## Block '' @ toString (int k + 1) @ js '' ''
          @ (if done_flag b then js ''(Completed)'' else [])"
  define body where "body = (if done_flag b then js ''~~'' else []) @ content b
            @ (if done_flag b then js ''~~'' else [])"
  have hl: "LF \<notin> set h"
    unfolding h_def by (rule heading_no_LF)
  have e0: "block_markdown k b @ rest
          = h @ LF # (LF # (body @ LF # (LF # (js ''---'' @ LF # (LF # rest)))))"
    using assms unfolding h_def body_def block_markdown_def by simp
  have e1: "split_on LF (h @ LF # r) = h # split_on LF r" for r
    using hl by (rule split_on_line)
  have e2: "split_on LF (body @ LF # r) = split_on LF body @ split_on LF r" for r
    by (rule split_on_append)
  have e3: "split_on LF (js ''---'' @ LF # r) = js ''---'' # split_on LF r" for r
    by (rule split_on_line) simp
  have "split_on LF (block_markdown k b @ rest)
          = [h, []] @ split_on LF body @ [[], js ''---'', []] @ split_on LF rest"
    unfolding e0 by (simp only: e1 e2 e3 split_on_LF_Cons append.simps)
  then show ?thesis unfolding h_def body_def .
qed

lemma heading_done:
  "includes_str (js ''## Block '' @ toString (int k + 1) @ js '' ''
       @ (if d then js ''(Completed)'' else [])) (js ''(Completed)'') = d"
proof (cases d)
  case True
  have "includes_str ((js ''## Block '' @ toString (int k + 1) @ js '' '') @ js ''(Completed)'')
          (js ''(Completed)'')"
    by (rule includes_str_append)
  then show ?thesis using True by simp
next
  case False
  have "\<not> includes_str (js ''## Block '' @ toString (int k + 1) @ js '' '') (js ''(Completed)'')"
  proof
    assume "includes_str (js ''## Block '' @ toString (int k + 1) @ js '' '') (js ''(Completed)'')"
    then have "set (js ''(Completed)'') \<subseteq> set (js ''## Block '' @ toString (int k + 1) @ js '' '')"
      by (rule includes_str_set)
    moreover have "0x28 \<in> set (js ''(Completed)'')" by (simp add: js_def)
    ultimately have "0x28 \<in> set (js ''## Block '' @ toString (int k + 1) @ js '' '')"
      by blast
    moreover have "0x28 \<notin> set (js ''## Block '')" "0x28 \<notin> set (js '' '')"
      by (simp_all add: js_def)
    ultimately show False using toString_chars [of "int k + 1"] by simp
  qed
  then show ?thesis using False by simp
qed

lemma scan_heading:
  "scan_line now i (js ''## Block '' @ toString (int k + 1) @ js '' ''
       @ (if d then js ''(Completed)'' else [])) (A, cur, inB)
   = (A @ flush cur,
      Some \<lparr>block_id = toString now @ toString (int i), content = [],
            done_flag = d, collapsed = False\<rparr>, True)"
proof -
  have "js ''## Block '' = js ''## Block'' @ js '' ''" by (simp add: js_def)
  then have "startsWith (js ''## Block '' @ toString (int k + 1) @ js '' ''
       @ (if d then js ''(Completed)'' else [])) (js ''## Block'')"
    by (simp add: startsWith_def)
  then show ?thesis
    by (simp add: scan_line_def heading_done del: includes_str.simps)
qed

lemma round_trip_content_nonempty: "round_trip_content d c \<Longrightarrow> c \<noteq> []"
  by (auto simp: round_trip_content_def)

lemma scan_group_gen:
  assumes "scan_line now i h (A, cur, inB) = (A', Some nb, True)"
    and "list_all content_line es"
  shows "scan_lines now i ([h, []] @ es @ [[], js ''---'', []]) (A, cur, inB)
     = (A', Some (nb\<lparr>content := append_lines (content nb)
                          (map (\<lambda>e. trim (strip_strike e)) (filter (\<lambda>e. trim e \<noteq> []) es))\<rparr>),
        False)"
proof -
  have "scan_lines now i [h, []] (A, cur, inB) = (A', Some nb, True)"
    using assms(1) by (simp add: scan_blank)
  then have "scan_lines now i ([h, []] @ es) (A, cur, inB)
      = (A', Some (nb\<lparr>content := append_lines (content nb)
                          (map (\<lambda>e. trim (strip_strike e)) (filter (\<lambda>e. trim e \<noteq> []) es))\<rparr>),
         True)"
    using scan_body [OF assms(2)] by (simp only: scan_lines_append)
  then have "scan_lines now i (([h, []] @ es) @ [[], js ''---'', []]) (A, cur, inB)
      = scan_lines now (i + length ([h, []] @ es)) [[], js ''---'', []]
          (A', Some (nb\<lparr>content := append_lines (content nb)
                          (map (\<lambda>e. trim (strip_strike e)) (filter (\<lambda>e. trim e \<noteq> []) es))\<rparr>),
           True)"
    by (simp only: scan_lines_append)
  also have "\<dots> = (A', Some (nb\<lparr>content := append_lines (content nb)
                          (map (\<lambda>e. trim (strip_strike e)) (filter (\<lambda>e. trim e \<noteq> []) es))\<rparr>),
                    False)"
    by (simp add: scan_blank scan_sep)
  finally show ?thesis by simp
qed

lemma scan_group:
  assumes "round_trip_content (done_flag b) (content b)"
  shows "scan_lines now i
     ([js ''## Block '' @ toString (int k + 1) @ js '' ''
          @ (if done_flag b then js ''(Completed)'' else []), []]
       @ split_on LF ((if done_flag b then js ''~~'' else []) @ content b
            @ (if done_flag b then js ''~~'' else []))
       @ [[], js ''---'', []]) (A, cur, inB)
   = (A @ flush cur,
      Some \<lparr>block_id = toString now @ toString (int i),
            content = imported_content (done_flag b) (content b),
            done_flag = done_flag b, collapsed = False\<rparr>, False)"
proof -
  let ?es = "split_on LF ((if done_flag b then js ''~~'' else []) @ content b
            @ (if done_flag b then js ''~~'' else []))"
  let ?nb = "\<lparr>block_id = toString now @ toString (int i), content = [],
            done_flag = done_flag b, collapsed = False\<rparr>"
  let ?h = "js ''## Block '' @ toString (int k + 1) @ js '' ''
          @ (if done_flag b then js ''(Completed)'' else [])"
  have ex: "list_all content_line ?es"
    using assms by (rule exported_lines(1))
  have c: "append_lines [] (map (\<lambda>e. trim (strip_strike e)) (filter (\<lambda>e. trim e \<noteq> []) ?es))
             = imported_content (done_flag b) (content b)"
    using assms by (rule exported_lines(2))
  have "scan_lines now i ([?h, []] @ ?es @ [[], js ''---'', []]) (A, cur, inB)
      = (A @ flush cur,
         Some (?nb\<lparr>content := append_lines (content ?nb)
                  (map (\<lambda>e. trim (strip_strike e)) (filter (\<lambda>e. trim e \<noteq> []) ?es))\<rparr>), False)"
    using scan_heading ex by (rule scan_group_gen)
  then show ?thesis using c by simp
qed

lemma flush_imported:
  "trim c \<noteq> [] \<Longrightarrow>
   flush (Some \<lparr>block_id = i, content = imported_content d' c, done_flag = d, collapsed = False\<rparr>)
     = [\<lparr>block_id = i, content = imported_content d' c, done_flag = d, collapsed = False\<rparr>]"
  by (simp add: flush_def trim_imported clean_content_nonempty)

lemma scan_blocks:
  assumes "\<forall>b\<in>set bs. round_trip_content (done_flag b) (content b)"
  shows "\<exists>A' cur' inB'.
      scan_lines now i (split_on LF (blocks_markdown k bs)) (A, cur, inB) = (A', cur', inB')
      \<and> map (\<lambda>b. (content b, done_flag b)) (A' @ flush cur')
          = map (\<lambda>b. (content b, done_flag b)) (A @ flush cur)
            @ map (\<lambda>b. (imported_content (done_flag b) (content b), done_flag b)) bs"
  using assms
proof (induction bs arbitrary: i k A cur inB)
  case Nil
  then show ?case by (simp add: scan_blank)
next
  case (Cons b bs)
  let ?G = "[js ''## Block '' @ toString (int k + 1) @ js '' ''
          @ (if done_flag b then js ''(Completed)'' else []), []]
       @ split_on LF ((if done_flag b then js ''~~'' else []) @ content b
            @ (if done_flag b then js ''~~'' else []))
       @ [[], js ''---'', []]"
  let ?nb = "\<lparr>block_id = toString now @ toString (int i),
            content = imported_content (done_flag b) (content b),
            done_flag = done_flag b, collapsed = False\<rparr>"
  have rc: "round_trip_content (done_flag b) (content b)" using Cons.prems by simp
  have ne: "content b \<noteq> []" using rc by (rule round_trip_content_nonempty)
  have "split_on LF (blocks_markdown k (b # bs))
          = ?G @ split_on LF (blocks_markdown (Suc k) bs)"
    using block_lines [OF ne, of k "blocks_markdown (Suc k) bs"] by simp
  then have st: "scan_lines now i (split_on LF (blocks_markdown k (b # bs))) (A, cur, inB)
      = scan_lines now (i + length ?G) (split_on LF (blocks_markdown (Suc k) bs))
          (A @ flush cur, Some ?nb, False)"
    using scan_group [OF rc, of now i k A cur inB] by (simp only: scan_lines_append)
  have "\<forall>b\<in>set bs. round_trip_content (done_flag b) (content b)" using Cons.prems by simp
  then obtain A' cur' inB' where
    r: "scan_lines now (i + length ?G) (split_on LF (blocks_markdown (Suc k) bs))
          (A @ flush cur, Some ?nb, False) = (A', cur', inB')"
    and v: "map (\<lambda>b. (content b, done_flag b)) (A' @ flush cur')
          = map (\<lambda>b. (content b, done_flag b)) ((A @ flush cur) @ flush (Some ?nb))
            @ map (\<lambda>b. (imported_content (done_flag b) (content b), done_flag b)) bs"
    using Cons.IH [of "i + length ?G" "Suc k" "A @ flush cur" "Some ?nb" False] by blast
  have "trim (content b) \<noteq> []" using rc by (simp add: round_trip_content_def)
  then have fl: "flush (Some ?nb) = [?nb]"
    by (rule flush_imported)
  show ?case
    unfolding st r using v unfolding fl by simp
qed

lemma header_lines:
  assumes "LF \<notin> set (title p)" and "LF \<notin> set (localeDate (createdAt p))"
  shows "split_on LF (generateMarkdownForPlan localeDate p)
     = [js ''# '' @ title p, [],
        js ''*Created: '' @ localeDate (createdAt p) @ js ''*'', [],
        js ''*Blocks: '' @ toString (int (length (blocks p))) @ js '' (''
          @ toString (int (length (filter (\<lambda>b. \<not> done_flag b) (blocks p)))) @ js '' active)*'', [],
        js ''---'', []]
       @ split_on LF (blocks_markdown 0 (blocks p))"
proof -
  define h1 where "h1 = js ''# '' @ title p"
  define h2 where "h2 = js ''*Created: '' @ localeDate (createdAt p) @ js ''*''"
  define h3 where "h3 = js ''*Blocks: '' @ toString (int (length (blocks p))) @ js '' (''
          @ toString (int (length (filter (\<lambda>b. \<not> done_flag b) (blocks p)))) @ js '' active)*''"
  define B where "B = blocks_markdown 0 (blocks p)"
  have l1: "LF \<notin> set h1" and l2: "LF \<notin> set h2"
    using assms unfolding h1_def h2_def by simp_all
  have l3: "LF \<notin> set h3"
    unfolding h3_def
    using toString_chars [of "int (length (blocks p))"]
      toString_chars [of "int (length (filter (\<lambda>b. \<not> done_flag b) (blocks p)))"]
    by simp
  have e0: "generateMarkdownForPlan localeDate p
      = h1 @ LF # (LF # (h2 @ LF # (LF # (h3 @ LF # (LF # (js ''---'' @ LF # (LF # B)))))))"
    unfolding h1_def h2_def h3_def B_def generateMarkdownForPlan_def by simp
  have e1: "split_on LF (h1 @ LF # r) = h1 # split_on LF r" for r
    using l1 by (rule split_on_line)
  have e2: "split_on LF (h2 @ LF # r) = h2 # split_on LF r" for r
    using l2 by (rule split_on_line)
  have e3: "split_on LF (h3 @ LF # r) = h3 # split_on LF r" for r
    using l3 by (rule split_on_line)
  have e4: "split_on LF (js ''---'' @ LF # r) = js ''---'' # split_on LF r" for r
    by (rule split_on_line) simp
  have "split_on LF (generateMarkdownForPlan localeDate p)
      = [h1, [], h2, [], h3, [], js ''---'', []] @ split_on LF B"
    unfolding e0 by (simp only: e1 e2 e3 e4 split_on_LF_Cons append.simps)
  then show ?thesis unfolding h1_def h2_def h3_def B_def .
qed

lemma strip_heading_title:
  assumes "round_trip_title t"
  shows "strip_heading (js ''# '' @ t) = t"
proof -
  have j: "js ''# '' = [0x23, 0x20]" by (simp add: js_def)
  have sp: "is_space (0x20 :: jschar)" by (simp add: is_space_def)
  have "dropWhile is_space t = t"
    using assms by (cases t) (auto simp: round_trip_title_def)
  then show ?thesis
    using sp by (simp add: strip_heading_def j)
qed

lemma header_no_heading:
  "\<forall>l\<in>set [[], js ''*Created: '' @ d @ js ''*'', [], js ''*Blocks: '' @ r, [], js ''---'', []].
     \<not> startsWith l (js ''## Block'')"
  by (simp add: startsWith_def js_def)

text \<open>
  C3, as stated, fails. A plan with one block, not done, whose content is \<open>~~x~~\<close>:
  the trimmed content is not empty, and the import of the export gives a block whose
  content is \<open>x\<close>, the strike markers being taken for those of a done block.
\<close>

theorem export_import_strike_counterexample:
  "trim (js ''~~x~~'') = js ''~~x~~''
   \<and> map_option (\<lambda>p. map content (blocks p))
        (parseMarkdownToPlan
           (generateMarkdownForPlan (\<lambda>t. js ''1/1/2024'')
              (mk_plan ''p1'' ''My Plan'' [mk_block ''b1'' ''~~x~~'']))
           (js ''f.md'') 1700000000000)
       = Some [js ''x'']
   \<and> trim (js ''x'') \<noteq> trim (js ''~~x~~'')"
  by code_simp

text \<open>
  C3, amended. Let the title of a plan be non-empty, on one line and without white space
  at its start; let the plan have at least one block; let the content of every block be
  non-empty once trimmed; let no line of a content start with \<open>## Block\<close> or with
  \<open>~~\<close>, end with \<open>~~\<close>, be \<open>---\<close>, or be \<open>*Empty block*\<close> once trimmed, where in
  a done block the start of the first line and the end of the last line are free (the
  first line may start, and the last line may end, in any way; neither is taken for
  \<open>---\<close>); and let the date printed by the host be on one line. Blank lines and white
  space anywhere in a content are allowed. Then the import of the export of the plan,
  with any fallback file name and at any time, gives a plan with the same title, as many
  blocks, and the same done flags in the same order. The content of each block is that of
  the original with every line trimmed and the blank lines left out, followed by one line
  break when the block is done and the last line of the original is blank; trimmed, it is
  the original with every line trimmed and the blank lines left out. The contents are
  equal up to trimming when no line break of a trimmed original content has white space
  next to it. Nothing is said of the collapsed flags.
\<close>

theorem export_import_round_trip:
  assumes "round_trip_title (title p)"
    and "blocks p \<noteq> []"
    and "list_all (\<lambda>b. round_trip_content (done_flag b) (content b)) (blocks p)"
    and "LF \<notin> set (localeDate (createdAt p))"
  shows "\<exists>p'. parseMarkdownToPlan (generateMarkdownForPlan localeDate p) fileName now = Some p'
      \<and> title p' = title p
      \<and> length (blocks p') = length (blocks p)
      \<and> map done_flag (blocks p') = map done_flag (blocks p)
      \<and> map content (blocks p')
          = map (\<lambda>b. imported_content (done_flag b) (content b)) (blocks p)
      \<and> map (\<lambda>b. trim (content b)) (blocks p')
          = map (\<lambda>b. clean_content (content b)) (blocks p)
      \<and> (list_all (\<lambda>b. tight_lines (split_on LF (trim (content b)))) (blocks p)
           \<longrightarrow> map (\<lambda>b. trim (content b)) (blocks p')
                 = map (\<lambda>b. trim (content b)) (blocks p))"
proof -
  let ?doc = "generateMarkdownForPlan localeDate p"
  let ?pre = "[[], js ''*Created: '' @ localeDate (createdAt p) @ js ''*'', [],
        js ''*Blocks: '' @ (toString (int (length (blocks p))) @ js '' (''
          @ toString (int (length (filter (\<lambda>b. \<not> done_flag b) (blocks p)))) @ js '' active)*''), [],
        js ''---'', []]"
  let ?B = "split_on LF (blocks_markdown 0 (blocks p))"
  let ?imp = "\<lambda>b. imported_content (done_flag b) (content b)"
  have tl: "LF \<notin> set (title p)" using assms(1) by (simp add: round_trip_title_def)
  have lines: "split_on LF ?doc = (js ''# '' @ title p) # ?pre @ ?B"
    using header_lines [of p localeDate] tl assms(4) by simp
  obtain inB0 where pre: "scan_lines now 1 ?pre ([], None, False) = ([], None, inB0)"
    using scan_lines_no_heading [OF header_no_heading] by blast
  have rc: "\<forall>b\<in>set (blocks p). round_trip_content (done_flag b) (content b)"
    using assms(3) by (simp add: list_all_iff)
  obtain A' cur' inB' where
    sc: "scan_lines now (1 + length ?pre) ?B ([], None, inB0) = (A', cur', inB')"
    and v: "map (\<lambda>b. (content b, done_flag b)) (A' @ flush cur')
          = map (\<lambda>b. (content b, done_flag b)) ([] @ flush None)
            @ map (\<lambda>b. (?imp b, done_flag b)) (blocks p)"
    using scan_blocks [OF rc, of now "1 + length ?pre" 0 "[]" None inB0] by blast
  have "scan_lines now 1 (tl (split_on LF ?doc)) ([], None, False) = (A', cur', inB')"
    unfolding lines list.sel scan_lines_append pre sc ..
  then have sb: "scanned_blocks now ?doc = A' @ flush cur'"
    by (simp add: scanned_blocks_def)
  have v': "map (\<lambda>b. (content b, done_flag b)) (scanned_blocks now ?doc)
          = map (\<lambda>b. (?imp b, done_flag b)) (blocks p)"
    using v unfolding sb by (simp add: flush_def)
  have len: "length (scanned_blocks now ?doc) = length (blocks p)"
    using arg_cong [OF v', of length] by simp
  have c: "map content (scanned_blocks now ?doc) = map ?imp (blocks p)"
    using arg_cong [OF v', of "map fst"] by (simp add: comp_def)
  have d: "map done_flag (scanned_blocks now ?doc) = map done_flag (blocks p)"
    using arg_cong [OF v', of "map snd"] by (simp add: comp_def)
  have "map trim (map content (scanned_blocks now ?doc)) = map trim (map ?imp (blocks p))"
    using c by simp
  then have c2: "map (\<lambda>b. trim (content b)) (scanned_blocks now ?doc)
                   = map (\<lambda>b. clean_content (content b)) (blocks p)"
    by (simp add: comp_def trim_imported)
  have c3: "map (\<lambda>b. clean_content (content b)) (blocks p) = map (\<lambda>b. trim (content b)) (blocks p)"
    if t: "list_all (\<lambda>b. tight_lines (split_on LF (trim (content b)))) (blocks p)"
  proof (intro map_cong refl)
    fix b
    assume b: "b \<in> set (blocks p)"
    then have "trim (content b) \<noteq> []" using rc by (simp add: round_trip_content_def)
    moreover have "tight_lines (split_on LF (trim (content b)))"
      using t b by (simp add: list_all_iff)
    ultimately show "clean_content (content b) = trim (content b)" by (rule clean_tight)
  qed
  have ne: "scanned_blocks now ?doc \<noteq> []"
    using len assms(2) by (metis length_0_conv)
  have t: "strip_heading (hd (split_on LF ?doc)) = title p"
    unfolding lines using assms(1) by (simp add: strip_heading_title)
  have tne: "title p \<noteq> []" using assms(1) by (simp add: round_trip_title_def)
  have p: "parseMarkdownToPlan ?doc fileName now
             = Some \<lparr>plan_id = toString now, title = title p, createdAt = now,
                     blocks = scanned_blocks now ?doc\<rparr>"
    using ne t tne by (simp add: parseMarkdownToPlan_def Let_def)
  show ?thesis
    unfolding p using len c d c2 c3 by simp
qed

theorem export_import_round_trip_witness:
  "map_option (\<lambda>p. (title p, map done_flag (blocks p), map content (blocks p)))
     (parseMarkdownToPlan
        (generateMarkdownForPlan (\<lambda>t. js ''1/1/2024'')
           (mk_plan ''p1'' ''My Plan''
              [(mk_block ''b1'' [])\<lparr>content := js ''done text'' @ [LF], done_flag := True\<rparr>,
               (mk_block ''b2'' [])\<lparr>content :=
                  [LF] @ js ''  first '' @ [LF, LF] @ js '' second  '' @ [LF]\<rparr>]))
        (js ''f.md'') 1700000000000)
   = Some (js ''My Plan'', [True, False],
           [js ''done text'' @ [LF], js ''first'' @ [LF] @ js ''second''])
   \<and> map_option (\<lambda>p. map (\<lambda>b. trim (content b)) (blocks p))
     (parseMarkdownToPlan
        (generateMarkdownForPlan (\<lambda>t. js ''1/1/2024'')
           (mk_plan ''p1'' ''My Plan''
              [(mk_block ''b1'' ''done text'')\<lparr>done_flag := True\<rparr>,
               (mk_block ''b2'' [])\<lparr>content := js ''  first'' @ [LF] @ js ''second  ''\<rparr>]))
        (js ''f.md'') 1700000000000)
   = Some [js ''done text'', js ''first'' @ [LF] @ js ''second'']"
proof -
  let ?p = "mk_plan ''p1'' ''My Plan''
              [(mk_block ''b1'' [])\<lparr>content := js ''done text'' @ [LF], done_flag := True\<rparr>,
               (mk_block ''b2'' [])\<lparr>content :=
                  [LF] @ js ''  first '' @ [LF, LF] @ js '' second  '' @ [LF]\<rparr>]"
  let ?q = "mk_plan ''p1'' ''My Plan''
              [(mk_block ''b1'' ''done text'')\<lparr>done_flag := True\<rparr>,
               (mk_block ''b2'' [])\<lparr>content := js ''  first'' @ [LF] @ js ''second  ''\<rparr>]"
  have t: "round_trip_title (title ?p)" by code_simp
  have n: "blocks ?p \<noteq> []" by (simp add: mk_plan_def)
  have c: "list_all (\<lambda>b. round_trip_content (done_flag b) (content b)) (blocks ?p)" by code_simp
  have d: "LF \<notin> set ((\<lambda>t. js ''1/1/2024'') (createdAt ?p))" by code_simp
  have v: "title ?p = js ''My Plan''" "map done_flag (blocks ?p) = [True, False]"
      "map (\<lambda>b. imported_content (done_flag b) (content b)) (blocks ?p)
         = [js ''done text'' @ [LF], js ''first'' @ [LF] @ js ''second'']"
    by code_simp+
  have A: "map_option (\<lambda>p. (title p, map done_flag (blocks p), map content (blocks p)))
     (parseMarkdownToPlan (generateMarkdownForPlan (\<lambda>t. js ''1/1/2024'') ?p)
        (js ''f.md'') 1700000000000)
   = Some (js ''My Plan'', [True, False],
           [js ''done text'' @ [LF], js ''first'' @ [LF] @ js ''second''])"
    using export_import_round_trip [OF t n c d, of "js ''f.md''" 1700000000000]
    unfolding v by auto
  have t': "round_trip_title (title ?q)" by code_simp
  have n': "blocks ?q \<noteq> []" by (simp add: mk_plan_def)
  have c': "list_all (\<lambda>b. round_trip_content (done_flag b) (content b)) (blocks ?q)" by code_simp
  have d': "LF \<notin> set ((\<lambda>t. js ''1/1/2024'') (createdAt ?q))" by code_simp
  have g: "list_all (\<lambda>b. tight_lines (split_on LF (trim (content b)))) (blocks ?q)" by code_simp
  have w: "map (\<lambda>b. trim (content b)) (blocks ?q)
             = [js ''done text'', js ''first'' @ [LF] @ js ''second'']"
    by code_simp
  have B: "map_option (\<lambda>p. map (\<lambda>b. trim (content b)) (blocks p))
     (parseMarkdownToPlan (generateMarkdownForPlan (\<lambda>t. js ''1/1/2024'') ?q)
        (js ''f.md'') 1700000000000)
   = Some [js ''done text'', js ''first'' @ [LF] @ js ''second'']"
    using export_import_round_trip [OF t' n' c' d', of "js ''f.md''" 1700000000000] g
    unfolding w by auto
  show ?thesis
    using A B by (rule conjI)
qed

end
